theory Spec2Isabelle
  imports Complex_Main "HOL-Library.AList"
begin

section \<open>The Gather agent helper: authentication and session lifecycle\<close>

text \<open>
  A shallow embedding of \<^verbatim>\<open>gather_agent.py\<close>: \<^verbatim>\<open>load_keys\<close>, \<^verbatim>\<open>authenticate\<close>,
  \<^verbatim>\<open>get_token\<close>, \<^verbatim>\<open>api_get\<close>, \<^verbatim>\<open>api_post\<close> and \<^verbatim>\<open>api_put\<close>.

  The functions of the program are translated line by line. What they call in Python's
  standard library (\<^verbatim>\<open>str\<close>, \<^verbatim>\<open>base64\<close>, \<^verbatim>\<open>json\<close>), in \<^verbatim>\<open>requests\<close> and in
  \<^verbatim>\<open>cryptography\<close> is not part of the repository; it is modelled here from the
  documented behaviour of those libraries:

  \<^item> a Python \<^verbatim>\<open>str\<close> and a \<^verbatim>\<open>bytes\<close> value are both a \<^typ>\<open>string\<close>, so a text holds
    code points below 256 only;
  \<^item> the file system is the three files the program names, the network is the list of
    replies the server will give, the clock is the \<^verbatim>\<open>float\<close> that \<^verbatim>\<open>time.time()\<close> returns;
  \<^item> every exception is a value of type \<open>error\<close>, and a function that can raise returns
    \<open>error + 'a\<close>;
  \<^item> where an input leaves the fragment the model covers (a JSON number with a fraction
    or an exponent, a \<^verbatim>\<open>\u\<close> escape above \<^verbatim>\<open>00ff\<close>, bytes that are not ASCII where the
    library would decode UTF-8, the \<^verbatim>\<open>repr\<close> of a list or dict), the result is
    \<open>Inl Unmodelled\<close>: the model makes no statement about the program there, and no
    \<^verbatim>\<open>except\<close> clause of the model catches it;
  \<^item> the limits of the interpreter are not modelled: integers and the nesting of a
    JSON text are unbounded, where CPython raises \<^verbatim>\<open>RecursionError\<close> for a text
    nested some thousand levels deep and \<^verbatim>\<open>ValueError\<close> for a number of more than
    4300 digits;
  \<^item> the Ed25519 signing function is a parameter \<open>sg\<close> of the model.
\<close>

subsection \<open>Exceptions\<close>

datatype error =
    FileNotFoundError
  | PermissionError
  | ValueError
  | KeyError string
  | TypeError
  | IndexError
  | AttributeError
  | BinasciiError
  | JSONDecodeError
  | UnicodeDecodeError
  | HTTPError nat string
  | ConnectionError
  | Unmodelled

subsection \<open>Python strings\<close>

definition dquote :: char where "dquote = CHR 0x22"
definition backslash :: char where "backslash = CHR 0x5C"

text \<open>\<^verbatim>\<open>str.isspace\<close> on the code points below 256.\<close>

definition py_isspace :: "char \<Rightarrow> bool" where
  "py_isspace c = (let n = (of_char c :: nat) in
     (9 \<le> n \<and> n \<le> 13) \<or> (28 \<le> n \<and> n \<le> 32) \<or> n = 133 \<or> n = 160)"

text \<open>\<^verbatim>\<open>s.strip()\<close>\<close>

definition py_strip :: "string \<Rightarrow> string" where
  "py_strip s = rev (dropWhile py_isspace (rev (dropWhile py_isspace s)))"

text \<open>\<^verbatim>\<open>s.split(sep)\<close> for a separator of one character: never the empty list.\<close>

fun py_split :: "char \<Rightarrow> string \<Rightarrow> string list" where
  "py_split sep [] = [[]]"
| "py_split sep (c # cs) =
     (if c = sep then [] # py_split sep cs
      else (case py_split sep cs of
              [] \<Rightarrow> [[c]]
            | x # xs \<Rightarrow> (c # x) # xs))"

text \<open>\<^verbatim>\<open>xs[i]\<close> for \<open>i \<ge> 0\<close>\<close>

definition py_index :: "'a list \<Rightarrow> nat \<Rightarrow> error + 'a" where
  "py_index xs i = (if i < length xs then Inr (xs ! i) else Inl IndexError)"

text \<open>\<^verbatim>\<open>str(i)\<close> for an integer: the decimal digits of a number that is not negative, and a
  sign before the digits of one that is.\<close>

definition digit_char :: "int \<Rightarrow> char" where
  "digit_char d = char_of (48 + d)"

function show_digits :: "int \<Rightarrow> string" where
  "show_digits n =
     (if n < 10 then [digit_char n] else show_digits (n div 10) @ [digit_char (n mod 10)])"
  by pat_completeness auto
termination
  by (relation "measure nat") auto

declare show_digits.simps [simp del]

definition show_int :: "int \<Rightarrow> string" where
  "show_int i = (if i < 0 then CHR ''-'' # show_digits (- i) else show_digits i)"

definition show_nat :: "nat \<Rightarrow> string" where
  "show_nat n = show_digits (int n)"

subsection \<open>base64\<close>

definition b64_alphabet :: string where
  "b64_alphabet = ''ABCDEFGHIJKLMNOPQRSTUVWXYZabcdefghijklmnopqrstuvwxyz0123456789+/''"

text \<open>The value of a character of the standard alphabet; \<open>None\<close> for every other character,
  the \<^verbatim>\<open>-\<close> and \<^verbatim>\<open>_\<close> of the URL-safe alphabet included.\<close>

definition b64_value :: "char \<Rightarrow> nat option" where
  "b64_value c = (let n = (of_char c :: nat) in
     if 65 \<le> n \<and> n \<le> 90 then Some (n - 65)
     else if 97 \<le> n \<and> n \<le> 122 then Some (n - 71)
     else if 48 \<le> n \<and> n \<le> 57 then Some (n + 4)
     else if n = 43 then Some 62
     else if n = 47 then Some 63
     else None)"

text \<open>
  \<^verbatim>\<open>binascii.a2b_base64\<close> in its default, non-strict mode, as \<^verbatim>\<open>base64.b64decode(s)\<close>
  calls it: a character outside the alphabet is skipped; a pad character ends the input
  once the quad it stands in is complete, and is skipped otherwise; an input that ends
  inside a quad is an error ("Incorrect padding"). The state is the position in the
  quad, the bits left over, the pad characters seen since the last data character and
  the output so far, in reverse.
\<close>

fun a2b_base64 :: "nat \<Rightarrow> nat \<Rightarrow> nat \<Rightarrow> string \<Rightarrow> string \<Rightarrow> error + string" where
  "a2b_base64 quad_pos leftchar pads out [] =
     (if quad_pos \<noteq> 0 then Inl BinasciiError else Inr (rev out))"
| "a2b_base64 quad_pos leftchar pads out (c # cs) =
     (if c = CHR ''='' then
        (if quad_pos \<ge> 2 \<and> quad_pos + (pads + 1) \<ge> 4 then Inr (rev out)
         else a2b_base64 quad_pos leftchar (if quad_pos \<ge> 2 then pads + 1 else pads) out cs)
      else
        (case b64_value c of
           None \<Rightarrow> a2b_base64 quad_pos leftchar pads out cs
         | Some this_ch \<Rightarrow>
             (if quad_pos = 0 then a2b_base64 1 this_ch 0 out cs
              else if quad_pos = 1 then
                a2b_base64 2 (this_ch mod 16) 0 (char_of (leftchar * 4 + this_ch div 16) # out) cs
              else if quad_pos = 2 then
                a2b_base64 3 (this_ch mod 4) 0 (char_of (leftchar * 16 + this_ch div 4) # out) cs
              else
                a2b_base64 0 0 0 (char_of (leftchar * 64 + this_ch) # out) cs)))"

text \<open>\<^verbatim>\<open>base64.b64decode(s)\<close> for a \<^verbatim>\<open>str\<close>: the string is encoded to ASCII first, which
  raises \<^verbatim>\<open>ValueError\<close> on any other character.\<close>

definition is_ascii :: "char \<Rightarrow> bool" where
  "is_ascii c = ((of_char c :: nat) < 128)"

definition b64decode :: "string \<Rightarrow> error + string" where
  "b64decode s = (if list_all is_ascii s then a2b_base64 0 0 0 [] s else Inl ValueError)"

text \<open>\<^verbatim>\<open>base64.b64encode(bs).decode()\<close>\<close>

definition b64_char :: "nat \<Rightarrow> char" where
  "b64_char n = b64_alphabet ! n"

fun b64encode :: "string \<Rightarrow> string" where
  "b64encode [] = []"
| "b64encode [a] =
     (let x = (of_char a :: nat) in
      [b64_char (x div 4), b64_char ((x mod 4) * 16), CHR ''='', CHR ''=''])"
| "b64encode [a, b] =
     (let x = (of_char a :: nat); y = (of_char b :: nat) in
      [b64_char (x div 4), b64_char ((x mod 4) * 16 + y div 16), b64_char ((y mod 16) * 4),
       CHR ''=''])"
| "b64encode (a # b # c # rest) =
     (let x = (of_char a :: nat); y = (of_char b :: nat); z = (of_char c :: nat) in
      [b64_char (x div 4), b64_char ((x mod 4) * 16 + y div 16),
       b64_char ((y mod 16) * 4 + z div 64), b64_char (z mod 64)] @ b64encode rest)"

subsection \<open>JSON values\<close>

text \<open>What \<^verbatim>\<open>json.loads\<close> returns: \<^verbatim>\<open>None\<close>, a \<^verbatim>\<open>bool\<close>, an \<^verbatim>\<open>int\<close>, a \<^verbatim>\<open>str\<close>, a \<^verbatim>\<open>list\<close> or a
  \<^verbatim>\<open>dict\<close> with string keys, in insertion order. A \<^verbatim>\<open>float\<close> is outside the model.\<close>

datatype json =
    JNull
  | JBool bool
  | JInt int
  | JString string
  | JArray "json list"
  | JObject "(string \<times> json) list"

subsection \<open>json.loads\<close>

text \<open>The result of scanning a prefix of a text: the value and the rest of the text, a
  syntax error, an input outside the model, or recursion cut off by the fuel.\<close>

datatype 'a scan = Parsed 'a string | Malformed | Unsupported | OutOfFuel

definition json_ws :: "char \<Rightarrow> bool" where
  "json_ws c = (c = CHR 0x20 \<or> c = CHR 0x09 \<or> c = CHR 0x0A \<or> c = CHR 0x0D)"

definition skip_ws :: "string \<Rightarrow> string" where
  "skip_ws s = dropWhile json_ws s"

definition is_digit :: "char \<Rightarrow> bool" where
  "is_digit c = (48 \<le> (of_char c :: nat) \<and> (of_char c :: nat) \<le> 57)"

definition hex_value :: "char \<Rightarrow> nat option" where
  "hex_value c = (let n = (of_char c :: nat) in
     if 48 \<le> n \<and> n \<le> 57 then Some (n - 48)
     else if 97 \<le> n \<and> n \<le> 102 then Some (n - 87)
     else if 65 \<le> n \<and> n \<le> 70 then Some (n - 55)
     else None)"

text \<open>The four hexadecimal digits of a \<^verbatim>\<open>\u\<close> escape.\<close>

definition hex4 :: "char \<Rightarrow> char \<Rightarrow> char \<Rightarrow> char \<Rightarrow> nat option" where
  "hex4 a b c d =
     (case (hex_value a, hex_value b, hex_value c, hex_value d) of
        (Some w, Some x, Some y, Some z) \<Rightarrow> Some (((w * 16 + x) * 16 + y) * 16 + z)
      | _ \<Rightarrow> None)"

text \<open>The character a one-letter escape stands for.\<close>

definition unescape :: "char \<Rightarrow> char option" where
  "unescape e =
     (if e = dquote then Some dquote
      else if e = backslash then Some backslash
      else if e = CHR ''/'' then Some CHR ''/''
      else if e = CHR ''b'' then Some (CHR 0x08)
      else if e = CHR ''f'' then Some (CHR 0x0C)
      else if e = CHR ''n'' then Some (CHR 0x0A)
      else if e = CHR ''r'' then Some (CHR 0x0D)
      else if e = CHR ''t'' then Some (CHR 0x09)
      else None)"

text \<open>\<^verbatim>\<open>scanstring\<close> in strict mode, from the character after the opening quote: the
  string read so far is kept in reverse.\<close>

fun scanstring :: "string \<Rightarrow> string \<Rightarrow> string scan" where
  "scanstring acc [] = Malformed"
| "scanstring acc (c # cs) =
     (if c = dquote then Parsed (rev acc) cs
      else if c = backslash then
        (case cs of
           [] \<Rightarrow> Malformed
         | e # r \<Rightarrow>
             if e = CHR ''u'' then
               (case r of
                  h1 # h2 # h3 # h4 # r' \<Rightarrow>
                    (case hex4 h1 h2 h3 h4 of
                       None \<Rightarrow> Malformed
                     | Some n \<Rightarrow> if n < 256 then scanstring (char_of n # acc) r' else Unsupported)
                | _ \<Rightarrow> Malformed)
             else
               (case unescape e of
                  None \<Rightarrow> Malformed
                | Some ch \<Rightarrow> scanstring (ch # acc) r))
      else if (of_char c :: nat) < 32 then Malformed
      else scanstring (c # acc) cs)"

text \<open>The value of a string of decimal digits.\<close>

definition digits_value :: "string \<Rightarrow> int" where
  "digits_value ds = foldl (\<lambda>acc d. acc * 10 + (of_char d - 48)) 0 ds"

text \<open>Whether a fraction or an exponent follows the integer part: the number is then a
  \<^verbatim>\<open>float\<close>.\<close>

definition float_follows :: "string \<Rightarrow> bool" where
  "float_follows s =
     (case s of
        [] \<Rightarrow> False
      | c # r \<Rightarrow>
          if c = CHR ''.'' then (case r of [] \<Rightarrow> False | d # _ \<Rightarrow> is_digit d)
          else if c = CHR ''e'' \<or> c = CHR ''E'' then
            (case r of
               [] \<Rightarrow> False
             | d # r' \<Rightarrow>
                 if d = CHR ''+'' \<or> d = CHR ''-'' then (case r' of [] \<Rightarrow> False | d' # _ \<Rightarrow> is_digit d')
                 else is_digit d)
          else False)"

text \<open>The number at the head of the text: an optional sign, then \<^verbatim>\<open>0\<close> or a digit from 1
  to 9 followed by digits.\<close>

definition scan_number :: "string \<Rightarrow> json scan" where
  "scan_number s =
     (let neg = (case s of [] \<Rightarrow> False | c # _ \<Rightarrow> c = CHR ''-'');
          s1 = (if neg then tl s else s)
      in case s1 of
           [] \<Rightarrow> Malformed
         | d # r \<Rightarrow>
             if \<not> is_digit d then Malformed
             else
               (let ds = (if d = CHR ''0'' then [d] else takeWhile is_digit s1);
                    rest = (if d = CHR ''0'' then r else dropWhile is_digit s1)
                in if float_follows rest then Unsupported
                   else Parsed (JInt (if neg then - digits_value ds else digits_value ds)) rest))"

text \<open>
  The scanner of \<^verbatim>\<open>json.loads\<close>: \<open>parse_value\<close> is \<^verbatim>\<open>scan_once\<close>, \<open>parse_array\<close> the loop
  of \<^verbatim>\<open>JSONArray\<close> from its first element on, \<open>parse_object\<close> the loop of \<^verbatim>\<open>JSONObject\<close>
  from the character after a key's opening quote. A \<^verbatim>\<open>dict\<close> keeps the last value of a
  repeated key at the key's first position. The first argument is fuel: every call
  passes on one unit less.
\<close>

fun parse_value :: "nat \<Rightarrow> string \<Rightarrow> json scan"
  and parse_array :: "nat \<Rightarrow> json list \<Rightarrow> string \<Rightarrow> json scan"
  and parse_object :: "nat \<Rightarrow> (string \<times> json) list \<Rightarrow> string \<Rightarrow> json scan"
where
  "parse_value 0 s = OutOfFuel"
| "parse_value (Suc n) s =
     (case s of
        [] \<Rightarrow> Malformed
      | c # cs \<Rightarrow>
          if c = dquote then
            (case scanstring [] cs of
               Parsed str r \<Rightarrow> Parsed (JString str) r
             | Malformed \<Rightarrow> Malformed
             | Unsupported \<Rightarrow> Unsupported
             | OutOfFuel \<Rightarrow> OutOfFuel)
          else if c = CHR ''{'' then
            (case skip_ws cs of
               [] \<Rightarrow> Malformed
             | d # r \<Rightarrow>
                 if d = CHR ''}'' then Parsed (JObject []) r
                 else if d = dquote then parse_object n [] r
                 else Malformed)
          else if c = CHR ''['' then
            (case skip_ws cs of
               [] \<Rightarrow> Malformed
             | d # r \<Rightarrow>
                 if d = CHR '']'' then Parsed (JArray []) r
                 else parse_array n [] (d # r))
          else if take 4 s = ''null'' then Parsed JNull (drop 4 s)
          else if take 4 s = ''true'' then Parsed (JBool True) (drop 4 s)
          else if take 5 s = ''false'' then Parsed (JBool False) (drop 5 s)
          else if take 3 s = ''NaN'' \<or> take 8 s = ''Infinity'' \<or> take 9 s = ''-Infinity''
            then Unsupported
          else scan_number s)"
| "parse_array 0 acc s = OutOfFuel"
| "parse_array (Suc n) acc s =
     (case parse_value n s of
        Parsed v r \<Rightarrow>
          (case skip_ws r of
             [] \<Rightarrow> Malformed
           | d # r' \<Rightarrow>
               if d = CHR '']'' then Parsed (JArray (rev (v # acc))) r'
               else if d = CHR '','' then parse_array n (v # acc) (skip_ws r')
               else Malformed)
      | Malformed \<Rightarrow> Malformed
      | Unsupported \<Rightarrow> Unsupported
      | OutOfFuel \<Rightarrow> OutOfFuel)"
| "parse_object 0 acc s = OutOfFuel"
| "parse_object (Suc n) acc s =
     (case scanstring [] s of
        Parsed key r \<Rightarrow>
          (case skip_ws r of
             [] \<Rightarrow> Malformed
           | c # r1 \<Rightarrow>
               if c \<noteq> CHR '':'' then Malformed
               else
                 (case parse_value n (skip_ws r1) of
                    Parsed v r2 \<Rightarrow>
                      (case skip_ws r2 of
                         [] \<Rightarrow> Malformed
                       | d # r3 \<Rightarrow>
                           if d = CHR ''}'' then Parsed (JObject (AList.update key v acc)) r3
                           else if d = CHR '','' then
                             (case skip_ws r3 of
                                [] \<Rightarrow> Malformed
                              | q # r4 \<Rightarrow>
                                  if q = dquote then parse_object n (AList.update key v acc) r4
                                  else Malformed)
                           else Malformed)
                  | Malformed \<Rightarrow> Malformed
                  | Unsupported \<Rightarrow> Unsupported
                  | OutOfFuel \<Rightarrow> OutOfFuel))
      | Malformed \<Rightarrow> Malformed
      | Unsupported \<Rightarrow> Unsupported
      | OutOfFuel \<Rightarrow> OutOfFuel)"

declare parse_value.simps [simp del] parse_array.simps [simp del] parse_object.simps [simp del]

text \<open>\<^verbatim>\<open>json.loads(s)\<close> for a \<^verbatim>\<open>str\<close>: white space, one value, white space, the end.\<close>

definition json_loads :: "string \<Rightarrow> error + json" where
  "json_loads s =
     (case parse_value (2 * length s + 2) (skip_ws s) of
        Parsed v r \<Rightarrow> if skip_ws r = [] then Inr v else Inl JSONDecodeError
      | Malformed \<Rightarrow> Inl JSONDecodeError
      | Unsupported \<Rightarrow> Inl Unmodelled
      | OutOfFuel \<Rightarrow> Inl Unmodelled)"

text \<open>\<^verbatim>\<open>json.loads(bs)\<close> for \<^verbatim>\<open>bytes\<close>: the bytes are decoded first. For bytes from 1 to
  127 the encoding found is UTF-8 and the text is the bytes.\<close>

definition is_plain_ascii :: "char \<Rightarrow> bool" where
  "is_plain_ascii c = (0 < (of_char c :: nat) \<and> (of_char c :: nat) < 128)"

definition json_loads_bytes :: "string \<Rightarrow> error + json" where
  "json_loads_bytes bs = (if list_all is_plain_ascii bs then json_loads bs else Inl Unmodelled)"

subsection \<open>json.dumps with indent=2\<close>

definition hex_digit :: "nat \<Rightarrow> char" where
  "hex_digit n = ''0123456789abcdef'' ! n"

text \<open>\<^verbatim>\<open>ensure_ascii\<close> is on: every character outside the printable ASCII range is escaped.\<close>

definition escape_char :: "char \<Rightarrow> string" where
  "escape_char c =
     (if c = dquote then [backslash, dquote]
      else if c = backslash then [backslash, backslash]
      else if c = CHR 0x0A then [backslash, CHR ''n'']
      else if c = CHR 0x0D then [backslash, CHR ''r'']
      else if c = CHR 0x09 then [backslash, CHR ''t'']
      else if c = CHR 0x08 then [backslash, CHR ''b'']
      else if c = CHR 0x0C then [backslash, CHR ''f'']
      else if 32 \<le> (of_char c :: nat) \<and> (of_char c :: nat) \<le> 126 then [c]
      else [backslash, CHR ''u'', CHR ''0'', CHR ''0'',
            hex_digit ((of_char c :: nat) div 16), hex_digit ((of_char c :: nat) mod 16)])"

definition encode_string :: "string \<Rightarrow> string" where
  "encode_string s = dquote # concat (map escape_char s) @ [dquote]"

definition newline_indent :: "nat \<Rightarrow> string" where
  "newline_indent lvl = CHR 0x0A # replicate (2 * lvl) (CHR 0x20)"

fun dumps :: "nat \<Rightarrow> json \<Rightarrow> string"
  and dumps_items :: "nat \<Rightarrow> json list \<Rightarrow> string"
  and dumps_members :: "nat \<Rightarrow> (string \<times> json) list \<Rightarrow> string"
where
  "dumps lvl JNull = ''null''"
| "dumps lvl (JBool b) = (if b then ''true'' else ''false'')"
| "dumps lvl (JInt i) = show_int i"
| "dumps lvl (JString s) = encode_string s"
| "dumps lvl (JArray []) = ''[]''"
| "dumps lvl (JArray (v # vs)) =
     ''['' @ newline_indent (Suc lvl) @ dumps (Suc lvl) v @ dumps_items (Suc lvl) vs
     @ newline_indent lvl @ '']''"
| "dumps lvl (JObject []) = ''{}''"
| "dumps lvl (JObject ((k, v) # kvs)) =
     ''{'' @ newline_indent (Suc lvl) @ encode_string k @ '': '' @ dumps (Suc lvl) v
     @ dumps_members (Suc lvl) kvs @ newline_indent lvl @ ''}''"
| "dumps_items lvl [] = []"
| "dumps_items lvl (v # vs) = '','' @ newline_indent lvl @ dumps lvl v @ dumps_items lvl vs"
| "dumps_members lvl [] = []"
| "dumps_members lvl ((k, v) # kvs) =
     '','' @ newline_indent lvl @ encode_string k @ '': '' @ dumps lvl v @ dumps_members lvl kvs"

text \<open>\<^verbatim>\<open>json.dumps(v, indent=2)\<close>, the text \<^verbatim>\<open>json.dump(v, f, indent=2)\<close> writes.\<close>

definition json_dumps :: "json \<Rightarrow> string" where
  "json_dumps v = dumps 0 v"

subsection \<open>Values of a dict\<close>

text \<open>No object in the value has a key twice: so it is for every value a \<^verbatim>\<open>dict\<close> holds,
  and for every value \<^verbatim>\<open>json.loads\<close> returns.\<close>

fun distinct_keys :: "json \<Rightarrow> bool"
  and distinct_keys_list :: "json list \<Rightarrow> bool"
  and distinct_keys_members :: "(string \<times> json) list \<Rightarrow> bool"
where
  "distinct_keys JNull = True"
| "distinct_keys (JBool b) = True"
| "distinct_keys (JInt i) = True"
| "distinct_keys (JString s) = True"
| "distinct_keys (JArray vs) = distinct_keys_list vs"
| "distinct_keys (JObject kvs) = (distinct (map fst kvs) \<and> distinct_keys_members kvs)"
| "distinct_keys_list [] = True"
| "distinct_keys_list (v # vs) = (distinct_keys v \<and> distinct_keys_list vs)"
| "distinct_keys_members [] = True"
| "distinct_keys_members ((k, v) # kvs) = (distinct_keys v \<and> distinct_keys_members kvs)"

text \<open>Two notions for the text \<^verbatim>\<open>json.dumps\<close> writes: the characters a value can start
  with, and a rest of the text that can follow a value (the end, a comma or a line
  break).\<close>

definition value_start :: "char \<Rightarrow> bool" where
  "value_start c = (c = CHR ''n'' \<or> c = CHR ''t'' \<or> c = CHR ''f'' \<or> is_digit c \<or> c = CHR ''-''
      \<or> c = dquote \<or> c = CHR ''['' \<or> c = CHR ''{'')"

definition ends_value :: "string \<Rightarrow> bool" where
  "ends_value rest = (case rest of [] \<Rightarrow> True | c # _ \<Rightarrow> c = CHR '','' \<or> c = CHR 0x0A)"

subsection \<open>float\<close>

text \<open>
  A Python \<^verbatim>\<open>float\<close> is a double: \<open>Finite m e\<close> is the number \<open>m * 2 ^ e\<close>, and there are
  the two infinities and the value that is not a number. The program has one
  operation on a \<^verbatim>\<open>float\<close>, the sum \<^verbatim>\<open>time.time() + 120\<close>, and one comparison, of an \<^verbatim>\<open>int\<close>
  with that sum. The sum of two doubles is the exact sum rounded to a double: to 53
  bits, or to a multiple of \<open>2 ^ (- 1074)\<close> where 53 bits would reach below that, to
  the nearest such number, to the one with an even last bit when two are equally near,
  and to an infinity when the rounded number reaches \<open>2 ^ 1024\<close>.
\<close>

datatype pyfloat = Finite int int | PosInf | NegInf | NaN

text \<open>The number of bits of a positive integer.\<close>

function bit_length :: "int \<Rightarrow> int" where
  "bit_length n = (if n \<le> 0 then 0 else 1 + bit_length (n div 2))"
  by auto
termination
  by (relation "measure nat") auto

declare bit_length.simps [simp del]

text \<open>The double nearest to \<open>m * 2\<^sup>e\<close>.\<close>

definition round_double :: "int \<Rightarrow> int \<Rightarrow> pyfloat" where
  "round_double m e =
     (let a = \<bar>m\<bar>;
          te = max (e + bit_length a - 53) (- 1074);
          d = 2 ^ nat (te - e);
          q = (if te \<le> e then a
               else if d < 2 * (a mod d) \<or> (2 * (a mod d) = d \<and> (a div d) mod 2 = 1)
                 then a div d + 1
               else a div d);
          x = max te e
      in if 1024 < bit_length q + x then (if m < 0 then NegInf else PosInf)
         else Finite (if m < 0 then - q else q) x)"

text \<open>\<^verbatim>\<open>x + y\<close> for two \<^verbatim>\<open>float\<close>s.\<close>

fun float_add :: "pyfloat \<Rightarrow> pyfloat \<Rightarrow> pyfloat" where
  "float_add (Finite m1 e1) (Finite m2 e2) =
     (let e = min e1 e2
      in round_double (m1 * 2 ^ nat (e1 - e) + m2 * 2 ^ nat (e2 - e)) e)"
| "float_add NaN _ = NaN"
| "float_add _ NaN = NaN"
| "float_add PosInf NegInf = NaN"
| "float_add NegInf PosInf = NaN"
| "float_add PosInf _ = PosInf"
| "float_add _ PosInf = PosInf"
| "float_add NegInf _ = NegInf"
| "float_add _ NegInf = NegInf"

text \<open>\<^verbatim>\<open>i > x\<close> for an \<^verbatim>\<open>int\<close> \<open>i\<close> and a \<^verbatim>\<open>float\<close> \<open>x\<close>: Python compares the two numbers
  exactly, without converting the \<^verbatim>\<open>int\<close>.\<close>

definition int_gt_float :: "int \<Rightarrow> pyfloat \<Rightarrow> bool" where
  "int_gt_float i x =
     (case x of
        Finite m e \<Rightarrow> (if 0 \<le> e then m * 2 ^ nat e < i else m < i * 2 ^ nat (- e))
      | PosInf \<Rightarrow> False
      | NegInf \<Rightarrow> True
      | NaN \<Rightarrow> False)"

text \<open>The number a finite \<^verbatim>\<open>float\<close> stands for.\<close>

definition float_value :: "pyfloat \<Rightarrow> real" where
  "float_value x = (case x of Finite m e \<Rightarrow> real_of_int m * 2 powr real_of_int e | _ \<Rightarrow> 0)"

subsection \<open>Operations on Python objects\<close>

text \<open>\<^verbatim>\<open>obj[key]\<close> for a string key: only a \<^verbatim>\<open>dict\<close> can be indexed by a string.\<close>

definition py_getitem :: "json \<Rightarrow> string \<Rightarrow> error + json" where
  "py_getitem obj key =
     (case obj of
        JObject kvs \<Rightarrow> (case map_of kvs key of None \<Rightarrow> Inl (KeyError key) | Some v \<Rightarrow> Inr v)
      | _ \<Rightarrow> Inl TypeError)"

text \<open>\<^verbatim>\<open>obj.get(key, dflt)\<close>: only a \<^verbatim>\<open>dict\<close> has the method.\<close>

definition py_get :: "json \<Rightarrow> string \<Rightarrow> json \<Rightarrow> error + json" where
  "py_get obj key dflt =
     (case obj of
        JObject kvs \<Rightarrow> (case map_of kvs key of None \<Rightarrow> Inr dflt | Some v \<Rightarrow> Inr v)
      | _ \<Rightarrow> Inl AttributeError)"

text \<open>\<^verbatim>\<open>obj.split(".")\<close>: only a \<^verbatim>\<open>str\<close> has the method.\<close>

definition py_str_split :: "json \<Rightarrow> error + string list" where
  "py_str_split obj =
     (case obj of JString s \<Rightarrow> Inr (py_split (CHR ''.'') s) | _ \<Rightarrow> Inl AttributeError)"

text \<open>\<^verbatim>\<open>base64.b64decode(obj)\<close>\<close>

definition py_b64decode :: "json \<Rightarrow> error + string" where
  "py_b64decode obj = (case obj of JString s \<Rightarrow> b64decode s | _ \<Rightarrow> Inl TypeError)"

text \<open>\<^verbatim>\<open>obj > t\<close> for a \<^verbatim>\<open>float\<close> \<open>t\<close>: a \<^verbatim>\<open>bool\<close> compares as 0 or 1, and what is not
  a number does not compare.\<close>

definition py_gt :: "json \<Rightarrow> pyfloat \<Rightarrow> error + bool" where
  "py_gt obj t =
     (case obj of
        JInt i \<Rightarrow> Inr (int_gt_float i t)
      | JBool b \<Rightarrow> Inr (int_gt_float (if b then 1 else 0) t)
      | _ \<Rightarrow> Inl TypeError)"

text \<open>\<^verbatim>\<open>str(obj)\<close>, as an f-string formats it.\<close>

definition py_str :: "json \<Rightarrow> error + string" where
  "py_str obj =
     (case obj of
        JString s \<Rightarrow> Inr s
      | JInt i \<Rightarrow> Inr (show_int i)
      | JNull \<Rightarrow> Inr ''None''
      | JBool b \<Rightarrow> Inr (if b then ''True'' else ''False'')
      | _ \<Rightarrow> Inl Unmodelled)"

text \<open>The truth value of an object, as \<^verbatim>\<open>or\<close> tests it.\<close>

definition py_truthy :: "json \<Rightarrow> bool" where
  "py_truthy obj =
     (case obj of
        JNull \<Rightarrow> False
      | JBool b \<Rightarrow> b
      | JInt i \<Rightarrow> i \<noteq> 0
      | JString s \<Rightarrow> s \<noteq> []
      | JArray vs \<Rightarrow> vs \<noteq> []
      | JObject kvs \<Rightarrow> kvs \<noteq> [])"

subsection \<open>The environment\<close>

text \<open>A file is missing, or it exists and cannot be opened for reading, or it can be
  opened and its bytes are not text in the encoding a text-mode read uses, or it has a
  content: the bytes of a file read in binary mode, the text of a file read in text mode.\<close>

datatype file_state = Missing | Unreadable | Undecodable | Content string

datatype path = AUTH_FILE | PRIVATE_KEY_FILE | PUBLIC_KEY_FILE

datatype http_method = GET | POST | PUT

record http_request =
  req_method :: http_method
  req_url :: string
  req_authorization :: "string option"
  req_params :: json
  req_json :: json

text \<open>What the program does to the world outside its files, in order: a file it opens
  (with the mode), a request it sends, a line it prints to \<^verbatim>\<open>sys.stderr\<close>.\<close>

datatype event = Opened path string | Request http_request | Stderr string

text \<open>What the network answers to one request: a response with its status code and
  body, or nothing (the transport fails).\<close>

datatype reply = Reply nat string | NoReply

record response =
  status_code :: nat
  resp_text :: string

text \<open>
  The state of the world: the content of the three files, whether the credential file
  can be opened for writing, the reading of \<^verbatim>\<open>time.time()\<close>, the replies the network will
  give to the requests to come, and the events so far.
\<close>

record world =
  private_key_file :: file_state
  public_key_file :: file_state
  auth_file :: file_state
  auth_file_writable :: bool
  clock :: pyfloat
  network :: "reply list"
  trace :: "event list"

definition log_event :: "event \<Rightarrow> world \<Rightarrow> world" where
  "log_event e w = w\<lparr>trace := trace w @ [e]\<rparr>"

definition file_at :: "path \<Rightarrow> world \<Rightarrow> file_state" where
  "file_at p w =
     (case p of
        AUTH_FILE \<Rightarrow> auth_file w
      | PRIVATE_KEY_FILE \<Rightarrow> private_key_file w
      | PUBLIC_KEY_FILE \<Rightarrow> public_key_file w)"

text \<open>\<^verbatim>\<open>os.path.exists(p)\<close>\<close>

definition os_path_exists :: "path \<Rightarrow> world \<Rightarrow> bool" where
  "os_path_exists p w = (file_at p w \<noteq> Missing)"

text \<open>\<^verbatim>\<open>with open(p, mode) as f: f.read()\<close> for a mode that reads. The model does not
  hold the bytes of a file that is not text, so it says nothing about reading them in
  binary mode.\<close>

definition read_file :: "path \<Rightarrow> string \<Rightarrow> world \<Rightarrow> (error + string) \<times> world" where
  "read_file p mode w =
     (let w' = log_event (Opened p mode) w in
      case file_at p w of
        Missing \<Rightarrow> (Inl FileNotFoundError, w')
      | Unreadable \<Rightarrow> (Inl PermissionError, w')
      | Undecodable \<Rightarrow> (Inl (if mode = ''rb'' then Unmodelled else UnicodeDecodeError), w')
      | Content s \<Rightarrow> (Inr s, w'))"

text \<open>\<^verbatim>\<open>with open(AUTH_FILE, "w") as f: f.write(s)\<close>: the file is replaced by the text
  written. A file that cannot be read stays so.\<close>

definition write_auth_file :: "string \<Rightarrow> world \<Rightarrow> (error + unit) \<times> world" where
  "write_auth_file s w =
     (let w' = log_event (Opened AUTH_FILE ''w'') w in
      if \<not> auth_file_writable w then (Inl PermissionError, w')
      else (Inr (), w'\<lparr>auth_file := (case auth_file w of Unreadable \<Rightarrow> Unreadable | _ \<Rightarrow> Content s)\<rparr>))"

subsection \<open>requests\<close>

text \<open>Sending a request: it is recorded, and the network's next reply is the response.\<close>

definition send :: "http_request \<Rightarrow> world \<Rightarrow> (error + response) \<times> world" where
  "send req w =
     (let w' = log_event (Request req) w in
      case network w of
        [] \<Rightarrow> (Inl ConnectionError, w')
      | NoReply # rs \<Rightarrow> (Inl ConnectionError, w'\<lparr>network := rs\<rparr>)
      | Reply st tx # rs \<Rightarrow> (Inr \<lparr>status_code = st, resp_text = tx\<rparr>, w'\<lparr>network := rs\<rparr>))"

text \<open>\<^verbatim>\<open>resp.ok\<close> and \<^verbatim>\<open>resp.raise_for_status()\<close>: an error is a status from 400 to 599.\<close>

definition resp_ok :: "response \<Rightarrow> bool" where
  "resp_ok resp = (\<not> (400 \<le> status_code resp \<and> status_code resp < 600))"

definition raise_for_status :: "response \<Rightarrow> error + unit" where
  "raise_for_status resp =
     (if 400 \<le> status_code resp \<and> status_code resp < 600
      then Inl (HTTPError (status_code resp) (resp_text resp))
      else Inr ())"

text \<open>\<^verbatim>\<open>resp.json()\<close>\<close>

definition resp_json :: "response \<Rightarrow> error + json" where
  "resp_json resp = json_loads (resp_text resp)"

text \<open>The header \<^verbatim>\<open>{"Authorization": f"Bearer {token}"}\<close>. A value with a line break is
  refused when the request is prepared; the exception is not modelled.\<close>

definition bearer_header :: "json \<Rightarrow> error + string" where
  "bearer_header token =
     (case py_str token of
        Inl e \<Rightarrow> Inl e
      | Inr s \<Rightarrow>
          if list_ex (\<lambda>c. c = CHR 0x0A \<or> c = CHR 0x0D) s then Inl Unmodelled
          else Inr (''Bearer '' @ s))"

subsection \<open>Ed25519\<close>

datatype private_key = Ed25519PrivateKey string

text \<open>\<^verbatim>\<open>Ed25519PrivateKey.from_private_bytes(data)\<close>: the key is 32 bytes.\<close>

definition from_private_bytes :: "string \<Rightarrow> error + private_key" where
  "from_private_bytes data =
     (if length data = 32 then Inr (Ed25519PrivateKey data) else Inl ValueError)"

text \<open>\<^verbatim>\<open>private_key.sign(msg)\<close>, for the signing function \<open>sg\<close> of seed and message.\<close>

type_synonym signer = "string \<Rightarrow> string \<Rightarrow> string"

definition sign :: "signer \<Rightarrow> private_key \<Rightarrow> string \<Rightarrow> string" where
  "sign sg key msg = (case key of Ed25519PrivateKey seed \<Rightarrow> sg seed msg)"

subsection \<open>The program\<close>

definition BASE_URL :: string where
  "BASE_URL = ''https://gather.is''"

text \<open>\<^verbatim>\<open>load_keys()\<close>\<close>

definition load_keys :: "world \<Rightarrow> (error + private_key \<times> string) \<times> world" where
  "load_keys w =
     (case read_file PRIVATE_KEY_FILE ''rb'' w of
        (Inl e, w1) \<Rightarrow> (Inl e, w1)
      | (Inr raw, w1) \<Rightarrow>
          (case from_private_bytes (take 32 raw) of
             Inl e \<Rightarrow> (Inl e, w1)
           | Inr private_key \<Rightarrow>
               (case read_file PUBLIC_KEY_FILE ''r'' w1 of
                  (Inl e, w2) \<Rightarrow> (Inl e, w2)
                | (Inr s, w2) \<Rightarrow> (Inr (private_key, py_strip s), w2))))"

text \<open>The two requests of \<^verbatim>\<open>authenticate()\<close>.\<close>

definition challenge_request :: "string \<Rightarrow> http_request" where
  "challenge_request public_pem =
     \<lparr>req_method = POST, req_url = BASE_URL @ ''/api/agents/challenge'',
      req_authorization = None, req_params = JNull,
      req_json = JObject [(''public_key'', JString public_pem)]\<rparr>"

definition authenticate_request :: "string \<Rightarrow> string \<Rightarrow> http_request" where
  "authenticate_request public_pem sig_b64 =
     \<lparr>req_method = POST, req_url = BASE_URL @ ''/api/agents/authenticate'',
      req_authorization = None, req_params = JNull,
      req_json = JObject [(''public_key'', JString public_pem), (''signature'', JString sig_b64)]\<rparr>"

text \<open>\<^verbatim>\<open>authenticate()\<close>\<close>

definition authenticate :: "signer \<Rightarrow> world \<Rightarrow> (error + json) \<times> world" where
  "authenticate sg w =
     (case load_keys w of
        (Inl e, w1) \<Rightarrow> (Inl e, w1)
      | (Inr (private_key, public_pem), w1) \<Rightarrow>
     (case send (challenge_request public_pem) w1 of
        (Inl e, w2) \<Rightarrow> (Inl e, w2)
      | (Inr resp, w2) \<Rightarrow>
     (case raise_for_status resp of
        Inl e \<Rightarrow> (Inl e, w2)
      | Inr _ \<Rightarrow>
     (case resp_json resp of
        Inl e \<Rightarrow> (Inl e, w2)
      | Inr challenge \<Rightarrow>
     (case py_getitem challenge ''nonce'' of
        Inl e \<Rightarrow> (Inl e, w2)
      | Inr nonce_b64 \<Rightarrow>
     (case py_b64decode nonce_b64 of
        Inl e \<Rightarrow> (Inl e, w2)
      | Inr nonce_bytes \<Rightarrow>
     (let signature = sign sg private_key nonce_bytes;
          sig_b64 = b64encode signature
      in
     (case send (authenticate_request public_pem sig_b64) w2 of
        (Inl e, w3) \<Rightarrow> (Inl e, w3)
      | (Inr resp2, w3) \<Rightarrow>
     (case raise_for_status resp2 of
        Inl e \<Rightarrow> (Inl e, w3)
      | Inr _ \<Rightarrow>
     (case resp_json resp2 of
        Inl e \<Rightarrow> (Inl e, w3)
      | Inr auth \<Rightarrow>
     (case write_auth_file (json_dumps auth) w3 of
        (Inl e, w4) \<Rightarrow> (Inl e, w4)
      | (Inr _, w4) \<Rightarrow>
     (case py_getitem auth ''token'' of
        Inl e \<Rightarrow> (Inl e, w4)
      | Inr token \<Rightarrow> (Inr token, w4)))))))))))))"

text \<open>Lines 66 to 68 of \<^verbatim>\<open>get_token()\<close>: the claims read from the token.\<close>

definition token_claims :: "json \<Rightarrow> error + json" where
  "token_claims token =
     (case py_str_split token of
        Inl e \<Rightarrow> Inl e
      | Inr parts \<Rightarrow>
     (case py_index parts 1 of
        Inl e \<Rightarrow> Inl e
      | Inr payload \<Rightarrow>
     (let padded = payload @ replicate (4 - length payload mod 4) (CHR ''='') in
     (case b64decode padded of
        Inl e \<Rightarrow> Inl e
      | Inr bs \<Rightarrow> json_loads_bytes bs))))"

text \<open>Lines 66 to 70, the body of the \<^verbatim>\<open>try\<close> statement: \<open>Inr True\<close> when it returns the
  token, \<open>Inr False\<close> when it falls through, \<open>Inl e\<close> when it raises \<open>e\<close>. In
  \<^verbatim>\<open>time.time() + 120\<close> the \<^verbatim>\<open>int\<close> 120 becomes the \<^verbatim>\<open>float\<close> 120.0, and the sum is that of two
  \<^verbatim>\<open>float\<close>s.\<close>

definition token_unexpired :: "json \<Rightarrow> pyfloat \<Rightarrow> error + bool" where
  "token_unexpired token t =
     (case token_claims token of
        Inl e \<Rightarrow> Inl e
      | Inr claims \<Rightarrow>
     (case py_get claims ''exp'' (JInt 0) of
        Inl e \<Rightarrow> Inl e
      | Inr expiry \<Rightarrow> py_gt expiry (float_add t (Finite 120 0))))"

text \<open>\<^verbatim>\<open>get_token()\<close>. The \<^verbatim>\<open>except Exception: pass\<close> covers the \<^verbatim>\<open>try\<close> statement only.\<close>

definition get_token :: "signer \<Rightarrow> world \<Rightarrow> (error + json) \<times> world" where
  "get_token sg w =
     (if os_path_exists AUTH_FILE w then
        (case read_file AUTH_FILE ''r'' w of
           (Inl e, w1) \<Rightarrow> (Inl e, w1)
         | (Inr s, w1) \<Rightarrow>
        (case json_loads s of
           Inl e \<Rightarrow> (Inl e, w1)
         | Inr auth \<Rightarrow>
        (case py_get auth ''token'' (JString []) of
           Inl e \<Rightarrow> (Inl e, w1)
         | Inr token \<Rightarrow>
        (case token_unexpired token (clock w1) of
           Inr True \<Rightarrow> (Inr token, w1)
         | Inr False \<Rightarrow> authenticate sg w1
         | Inl e \<Rightarrow> if e = Unmodelled then (Inl Unmodelled, w1) else authenticate sg w1))))
      else authenticate sg w)"

text \<open>\<^verbatim>\<open>api_get(path, params=None)\<close>, with \<open>JNull\<close> for \<^verbatim>\<open>None\<close>.\<close>

definition api_get :: "signer \<Rightarrow> string \<Rightarrow> json \<Rightarrow> world \<Rightarrow> (error + json) \<times> world" where
  "api_get sg path params w =
     (case get_token sg w of
        (Inl e, w1) \<Rightarrow> (Inl e, w1)
      | (Inr token, w1) \<Rightarrow>
     (case bearer_header token of
        Inl e \<Rightarrow> (Inl e, w1)
      | Inr hdr \<Rightarrow>
     (case send \<lparr>req_method = GET, req_url = BASE_URL @ path, req_authorization = Some hdr,
                 req_params = params, req_json = JNull\<rparr> w1 of
        (Inl e, w2) \<Rightarrow> (Inl e, w2)
      | (Inr resp, w2) \<Rightarrow>
     (case raise_for_status resp of
        Inl e \<Rightarrow> (Inl e, w2)
      | Inr _ \<Rightarrow>
     (case resp_json resp of
        Inl e \<Rightarrow> (Inl e, w2)
      | Inr v \<Rightarrow> (Inr v, w2))))))"

text \<open>The line \<^verbatim>\<open>print(f"ERROR {resp.status_code}: {resp.text}", file=sys.stderr)\<close>\<close>

definition error_line :: "response \<Rightarrow> string" where
  "error_line resp = ''ERROR '' @ show_nat (status_code resp) @ '': '' @ resp_text resp"

text \<open>\<^verbatim>\<open>api_post(path, data)\<close>\<close>

definition api_post :: "signer \<Rightarrow> string \<Rightarrow> json \<Rightarrow> world \<Rightarrow> (error + json) \<times> world" where
  "api_post sg path data w =
     (case get_token sg w of
        (Inl e, w1) \<Rightarrow> (Inl e, w1)
      | (Inr token, w1) \<Rightarrow>
     (case bearer_header token of
        Inl e \<Rightarrow> (Inl e, w1)
      | Inr hdr \<Rightarrow>
     (case send \<lparr>req_method = POST, req_url = BASE_URL @ path, req_authorization = Some hdr,
                 req_params = JNull, req_json = data\<rparr> w1 of
        (Inl e, w2) \<Rightarrow> (Inl e, w2)
      | (Inr resp, w2) \<Rightarrow>
     (let w3 = (if \<not> resp_ok resp then log_event (Stderr (error_line resp)) w2 else w2) in
     (case raise_for_status resp of
        Inl e \<Rightarrow> (Inl e, w3)
      | Inr _ \<Rightarrow>
     (case resp_json resp of
        Inl e \<Rightarrow> (Inl e, w3)
      | Inr v \<Rightarrow> (Inr v, w3)))))))"

text \<open>\<^verbatim>\<open>api_put(path, data=None)\<close>, with \<open>JNull\<close> for \<^verbatim>\<open>None\<close>.\<close>

definition api_put :: "signer \<Rightarrow> string \<Rightarrow> json \<Rightarrow> world \<Rightarrow> (error + json) \<times> world" where
  "api_put sg path data w =
     (case get_token sg w of
        (Inl e, w1) \<Rightarrow> (Inl e, w1)
      | (Inr token, w1) \<Rightarrow>
     (case bearer_header token of
        Inl e \<Rightarrow> (Inl e, w1)
      | Inr hdr \<Rightarrow>
     (case send \<lparr>req_method = PUT, req_url = BASE_URL @ path, req_authorization = Some hdr,
                 req_params = JNull, req_json = (if py_truthy data then data else JObject [])\<rparr> w1 of
        (Inl e, w2) \<Rightarrow> (Inl e, w2)
      | (Inr resp, w2) \<Rightarrow>
     (let w3 = (if \<not> resp_ok resp then log_event (Stderr (error_line resp)) w2 else w2) in
     (case raise_for_status resp of
        Inl e \<Rightarrow> (Inl e, w3)
      | Inr _ \<Rightarrow>
     (case resp_json resp of
        Inl e \<Rightarrow> (Inl e, w3)
      | Inr v \<Rightarrow> (Inr v, w3)))))))"

text \<open>The requests among the events.\<close>

fun requests_of :: "event list \<Rightarrow> http_request list" where
  "requests_of [] = []"
| "requests_of (Request r # es) = r # requests_of es"
| "requests_of (_ # es) = requests_of es"

text \<open>The lines printed to \<^verbatim>\<open>sys.stderr\<close> among the events.\<close>

fun stderr_of :: "event list \<Rightarrow> string list" where
  "stderr_of [] = []"
| "stderr_of (Stderr l # es) = l # stderr_of es"
| "stderr_of (_ # es) = stderr_of es"

subsection \<open>The claims read in the spec's way\<close>

text \<open>
  The spec has the payload of the token decoded as base64url. These two definitions
  follow the spec's words, to be compared with \<open>token_claims\<close>, which follows the program:
  \<open>urlsafe_b64decode\<close> is \<^verbatim>\<open>base64.urlsafe_b64decode\<close>, which reads \<^verbatim>\<open>-\<close> as \<^verbatim>\<open>+\<close> and \<^verbatim>\<open>_\<close> as
  \<^verbatim>\<open>/\<close> and decodes then, and \<open>spec_token_claims\<close> is \<open>token_claims\<close> with that decoder.
\<close>

definition urlsafe_b64decode :: "string \<Rightarrow> error + string" where
  "urlsafe_b64decode s =
     b64decode (map (\<lambda>c. if c = CHR ''-'' then CHR ''+'' else if c = CHR ''_'' then CHR ''/'' else c) s)"

definition spec_token_claims :: "json \<Rightarrow> error + json" where
  "spec_token_claims token =
     (case py_str_split token of
        Inl e \<Rightarrow> Inl e
      | Inr parts \<Rightarrow>
     (case py_index parts 1 of
        Inl e \<Rightarrow> Inl e
      | Inr payload \<Rightarrow>
     (let padded = payload @ replicate (4 - length payload mod 4) (CHR ''='') in
     (case urlsafe_b64decode padded of
        Inl e \<Rightarrow> Inl e
      | Inr bs \<Rightarrow> json_loads_bytes bs))))"

subsection \<open>Concrete inputs\<close>

text \<open>No statement below depends on what a signature is. Where a closed instance needs a
  signing function, this one stands in for Ed25519: 64 bytes, as a signature has.\<close>

definition stand_in_signer :: signer where
  "stand_in_signer seed msg = replicate 64 (CHR 0x00)"

text \<open>A world whose key files are in order (the private key file holds 32 bytes and some
  more, the public key file ends in a line break), at the time 1700000000, with a given
  state of the credential file and given replies of the service.\<close>

definition world_with :: "file_state \<Rightarrow> reply list \<Rightarrow> world" where
  \<open>world_with cache replies =
     \<lparr>private_key_file = Content (replicate 32 (CHR ''k'') @ ''trailing''),
      public_key_file = Content ''PEM\<newline>'',
      auth_file = cache, auth_file_writable = True,
      clock = Finite 1700000000 0,
      network = replies,
      trace = []\<rparr>\<close>

text \<open>The service answers the challenge request with status 503.\<close>

definition world_unavailable :: world where
  \<open>world_unavailable = world_with (Content ''{"token": "old"}'') [Reply 503 ''busy'']\<close>

text \<open>The service answers the challenge request with status 300 and a nonce, and the
  authenticate request with status 200 and a token.\<close>

definition world_multiple_choices :: world where
  \<open>world_multiple_choices =
     world_with (Content ''{"token": "old"}'')
       [Reply 300 ''{"nonce": "AAAA"}'', Reply 200 ''{"token": "t"}'']\<close>

text \<open>Both requests are answered with status 200, and the answer to the authenticate
  request has no \<^verbatim>\<open>token\<close>.\<close>

definition world_tokenless_reply :: world where
  \<open>world_tokenless_reply =
     world_with (Content ''{"token": "old"}'')
       [Reply 200 ''{"nonce": "AAAA"}'', Reply 200 ''{"agent": "a1"}'']\<close>

text \<open>The replies of a service that accepts the agent and issues the token \<^verbatim>\<open>new\<close>.\<close>

definition good_replies :: "reply list" where
  \<open>good_replies = [Reply 200 ''{"nonce": "AAAA"}'', Reply 200 ''{"token": "new"}'']\<close>

text \<open>The replies of a service that accepts the agent and issues \<open>fresh_token\<close> below, with
  two fields beside it.\<close>

definition issuing_replies :: "reply list" where
  \<open>issuing_replies =
     [Reply 200 ''{"nonce": "AAAA"}'',
      Reply 200 (''{"agent_id": "a1", "token": "eyJhbGciOiJFZERTQSIsInR5cCI6IkpXVCJ9.eyJleHAiOjE3MDAwMDM2MDB9.c2ln", "unread": 3}'')]\<close>

text \<open>
  Tokens with the header \<^verbatim>\<open>{"alg":"EdDSA","typ":"JWT"}\<close>. The payloads of the first four
  are the base64url encodings, without padding, of \<^verbatim>\<open>{"exp":1700003600}\<close> (an hour after
  the time of \<open>world_with\<close>), of \<^verbatim>\<open>{"exp":1700000120}\<close> (120 seconds after it), of
  \<^verbatim>\<open>{"sub":"agent>>1","exp":9999999999}\<close>, whose encoding has a \<^verbatim>\<open>-\<close>, and of
  \<^verbatim>\<open>{"sub":"??","exp":1700003600}\<close>, whose encoding has a \<^verbatim>\<open>_\<close>. The payload of the fifth
  is the encoding of \<^verbatim>\<open>{"exp":9999999999}\<close> with a \<^verbatim>\<open>_\<close> after it: 25 characters, which is
  not the length of a base64url text. The payload of the sixth is the encoding of \<^verbatim>\<open>[]\<close>.
\<close>

definition fresh_token :: string where
  "fresh_token = ''eyJhbGciOiJFZERTQSIsInR5cCI6IkpXVCJ9.eyJleHAiOjE3MDAwMDM2MDB9.c2ln''"

definition boundary_token :: string where
  "boundary_token = ''eyJhbGciOiJFZERTQSIsInR5cCI6IkpXVCJ9.eyJleHAiOjE3MDAwMDAxMjB9.c2ln''"

definition urlsafe_token :: string where
  "urlsafe_token =
     ''eyJhbGciOiJFZERTQSIsInR5cCI6IkpXVCJ9.eyJzdWIiOiJhZ2VudD4-MSIsImV4cCI6OTk5OTk5OTk5OX0.c2ln''"

definition underscore_token :: string where
  "underscore_token =
     ''eyJhbGciOiJFZERTQSIsInR5cCI6IkpXVCJ9.eyJzdWIiOiI_PyIsImV4cCI6MTcwMDAwMzYwMH0.c2ln''"

definition stray_token :: string where
  "stray_token = ''eyJhbGciOiJFZERTQSIsInR5cCI6IkpXVCJ9.eyJleHAiOjk5OTk5OTk5OTl9_.c2ln''"

definition list_claims_token :: string where
  "list_claims_token = ''eyJhbGciOiJFZERTQSIsInR5cCI6IkpXVCJ9.W10.c2ln''"

text \<open>A credential file that holds a token.\<close>

definition credential_text :: "string \<Rightarrow> string" where
  \<open>credential_text tok = ''{"token": "'' @ tok @ ''"}''\<close>

text \<open>A world whose public key file does not hold a key.\<close>

definition world_no_public_key :: world where
  "world_no_public_key = (world_with Missing good_replies)\<lparr>public_key_file := Content ''not a key''\<rparr>"

section \<open>Properties\<close>

subsection \<open>Auxiliary facts\<close>

text \<open>The comparison of an \<^verbatim>\<open>int\<close> with a \<^verbatim>\<open>float\<close> is that of the two numbers.\<close>

lemma int_gt_float_real:
  "int_gt_float i (Finite m e) \<longleftrightarrow> float_value (Finite m e) < real_of_int i"
proof (cases "0 \<le> e")
  case True
  then have "2 powr real_of_int e = (2::real) ^ nat e"
    by (simp add: powr_realpow [symmetric])
  then have "float_value (Finite m e) = real_of_int (m * 2 ^ nat e)"
    by (simp add: float_value_def)
  then show ?thesis
    using True by (simp only: int_gt_float_def pyfloat.case if_True of_int_less_iff)
next
  case False
  then have "2 powr real_of_int e = 1 / (2::real) ^ nat (- e)"
    by (simp add: powr_realpow [symmetric] powr_minus [symmetric] divide_inverse)
  then have v: "float_value (Finite m e) = real_of_int m / 2 ^ nat (- e)"
    by (simp add: float_value_def)
  have "real_of_int m / 2 ^ nat (- e) < real_of_int i
      \<longleftrightarrow> real_of_int m < real_of_int (i * 2 ^ nat (- e))"
    by (simp add: pos_divide_less_eq)
  then show ?thesis
    using False unfolding v by (simp only: int_gt_float_def pyfloat.case if_False of_int_less_iff)
qed

lemma bit_length_bound: "0 \<le> n \<Longrightarrow> n < 2 ^ k \<Longrightarrow> bit_length n \<le> int k"
proof (induction k arbitrary: n)
  case 0
  then have "n = 0" by simp
  then show ?case by (simp add: bit_length.simps)
next
  case (Suc k)
  show ?case
  proof (cases "n = 0")
    case True
    then show ?thesis by (simp add: bit_length.simps)
  next
    case False
    with Suc.prems have pos: "0 < n" by simp
    from Suc.prems have "n div 2 < 2 ^ k" by simp
    moreover from pos have "0 \<le> n div 2" by simp
    ultimately have "bit_length (n div 2) \<le> int k" by (rule Suc.IH [rotated])
    with pos show ?thesis by (subst bit_length.simps) simp
  qed
qed

text \<open>When the clock reads a whole number of seconds, as long as the sum stays below
  \<open>2 ^ 53\<close>, \<^verbatim>\<open>time.time() + 120\<close> is the exact sum.\<close>

lemma float_add_exact:
  assumes "0 \<le> c" and "c + 120 < 2 ^ 53"
  shows "float_add (Finite c 0) (Finite 120 0) = Finite (c + 120) 0"
proof -
  have "bit_length (c + 120) \<le> 53"
    using bit_length_bound [of "c + 120" 53] assms by simp
  moreover have "bit_length \<bar>c + 120\<bar> = bit_length (c + 120)" using assms by simp
  ultimately show ?thesis
    using assms by (simp add: round_double_def Let_def max_def)
qed

text \<open>Elsewhere the sum is rounded. At the time \<open>2147483588 - 2 ^ (- 22)\<close>, a double, the
  exact sum lies halfway between two doubles and \<^verbatim>\<open>time.time() + 120\<close> is the upper one,
  2147483708: an \<^verbatim>\<open>exp\<close> of 2147483708 is greater than the exact sum and not greater than
  the sum the program computes.\<close>

lemma float_add_rounds:
  "int_gt_float 2147483708 (Finite (2147483708 * 2 ^ 22 - 1) (- 22))
   \<and> \<not> int_gt_float 2147483708
         (float_add (Finite (2147483588 * 2 ^ 22 - 1) (- 22)) (Finite 120 0))"
  by code_simp

lemma requests_of_append [simp]: "requests_of (xs @ ys) = requests_of xs @ requests_of ys"
  by (induction xs rule: requests_of.induct) simp_all

lemma stderr_of_append [simp]: "stderr_of (xs @ ys) = stderr_of xs @ stderr_of ys"
  by (induction xs rule: stderr_of.induct) simp_all

lemma raise_for_status_ok:
  "\<not> (400 \<le> st \<and> st < 600) \<Longrightarrow> raise_for_status \<lparr>status_code = st, resp_text = b\<rparr> = Inr ()"
  by (simp add: raise_for_status_def)

lemma py_getitem_get: "py_getitem obj key = Inr v \<Longrightarrow> py_get obj key dflt = Inr v"
  by (auto simp: py_getitem_def py_get_def split: json.splits option.splits)

lemma load_keys_ok:
  assumes "private_key_file w = Content raw" and "32 \<le> length raw"
    and "public_key_file w = Content pub"
  shows "load_keys w =
    (Inr (Ed25519PrivateKey (take 32 raw), py_strip pub),
     w\<lparr>trace := trace w @ [Opened PRIVATE_KEY_FILE ''rb'', Opened PUBLIC_KEY_FILE ''r'']\<rparr>)"
  using assms
  by (simp add: load_keys_def read_file_def file_at_def log_event_def from_private_bytes_def)

text \<open>\<^verbatim>\<open>authenticate()\<close> up to the line that opens the credential file, when nothing
  before it raises.\<close>

lemma authenticate_to_write:
  assumes "private_key_file w = Content raw" and "32 \<le> length raw"
    and "public_key_file w = Content pub"
    and "network w = Reply st1 b1 # Reply st2 b2 # rest"
    and "\<not> (400 \<le> st1 \<and> st1 < 600)" and "\<not> (400 \<le> st2 \<and> st2 < 600)"
    and "json_loads b1 = Inr challenge"
    and "py_getitem challenge ''nonce'' = Inr nonce_b64"
    and "py_b64decode nonce_b64 = Inr nonce"
    and "json_loads b2 = Inr auth"
  shows "authenticate sg w =
    (let pem = py_strip pub;
         sig_b64 = b64encode (sg (take 32 raw) nonce);
         w3 = w\<lparr>trace := trace w @ [Opened PRIVATE_KEY_FILE ''rb'', Opened PUBLIC_KEY_FILE ''r'',
                           Request (challenge_request pem),
                           Request (authenticate_request pem sig_b64)],
                network := rest\<rparr>
     in case write_auth_file (json_dumps auth) w3 of
          (Inl e, w4) \<Rightarrow> (Inl e, w4)
        | (Inr _, w4) \<Rightarrow>
            (case py_getitem auth ''token'' of
               Inl e \<Rightarrow> (Inl e, w4)
             | Inr token \<Rightarrow> (Inr token, w4)))"
proof -
  have ok: "raise_for_status \<lparr>status_code = st1, resp_text = b1\<rparr> = Inr ()"
    "raise_for_status \<lparr>status_code = st2, resp_text = b2\<rparr> = Inr ()"
    using assms(5,6) by (simp_all add: raise_for_status_ok)
  show ?thesis
    using assms(1-4,7-10) ok
    by (simp add: authenticate_def load_keys_ok send_def log_event_def
        resp_json_def sign_def Let_def)
qed

text \<open>Once the challenge is answered with a nonce, \<^verbatim>\<open>authenticate()\<close> sends both requests,
  whatever comes after.\<close>

lemma authenticate_two_requests:
  assumes "private_key_file w = Content raw" and "32 \<le> length raw"
    and "public_key_file w = Content pub"
    and "network w = Reply st1 b1 # rest"
    and "\<not> (400 \<le> st1 \<and> st1 < 600)"
    and "json_loads b1 = Inr challenge"
    and "py_getitem challenge ''nonce'' = Inr nonce_b64"
    and "py_b64decode nonce_b64 = Inr nonce"
  shows "\<exists>tail. trace (snd (authenticate sg w)) =
           trace w @ [Opened PRIVATE_KEY_FILE ''rb'', Opened PUBLIC_KEY_FILE ''r'',
                      Request (challenge_request (py_strip pub)),
                      Request (authenticate_request (py_strip pub)
                                (b64encode (sg (take 32 raw) nonce)))] @ tail
         \<and> (tail = [] \<or> tail = [Opened AUTH_FILE ''w''])"
proof -
  have ok: "raise_for_status \<lparr>status_code = st1, resp_text = b1\<rparr> = Inr ()"
    using assms(5) by (simp add: raise_for_status_ok)
  show ?thesis
    using assms(1-4,6-8) ok
    by (auto simp: authenticate_def load_keys_ok send_def log_event_def
        resp_json_def sign_def Let_def write_auth_file_def
        split: list.splits reply.splits sum.splits prod.splits)
qed

lemma get_token_missing:
  "auth_file w = Missing \<Longrightarrow> get_token sg w = authenticate sg w"
  by (simp add: get_token_def os_path_exists_def file_at_def)

text \<open>\<^verbatim>\<open>get_token()\<close> once the credential file is read and holds an object.\<close>

lemma get_token_cached:
  assumes "auth_file w = Content s" and "json_loads s = Inr auth"
    and "py_get auth ''token'' (JString []) = Inr token"
  shows "get_token sg w =
    (let w1 = log_event (Opened AUTH_FILE ''r'') w in
     case token_unexpired token (clock w) of
       Inr True \<Rightarrow> (Inr token, w1)
     | Inr False \<Rightarrow> authenticate sg w1
     | Inl e \<Rightarrow> if e = Unmodelled then (Inl Unmodelled, w1) else authenticate sg w1)"
  using assms
  by (simp add: get_token_def os_path_exists_def file_at_def read_file_def log_event_def Let_def)

text \<open>What \<^verbatim>\<open>strip()\<close> removes is white space at both ends, and it removes all of it.\<close>

lemma py_strip_decomp:
  "\<exists>a b. s = a @ py_strip s @ b \<and> list_all py_isspace a \<and> list_all py_isspace b"
proof -
  let ?P = py_isspace
  let ?m = "dropWhile ?P s"
  have 1: "s = takeWhile ?P s @ ?m" by simp
  have "?m = rev (dropWhile ?P (rev ?m)) @ rev (takeWhile ?P (rev ?m))"
    by (metis rev_append rev_rev_ident takeWhile_dropWhile_id)
  then have 2: "?m = py_strip s @ rev (takeWhile ?P (rev ?m))"
    by (simp only: py_strip_def)
  have 3: "list_all ?P (takeWhile ?P s)"
    by (simp add: list_all_iff) (meson set_takeWhileD)
  have 4: "list_all ?P (rev (takeWhile ?P (rev ?m)))"
    by (simp add: list_all_iff) (meson set_takeWhileD)
  from 1 2 have "s = takeWhile ?P s @ py_strip s @ rev (takeWhile ?P (rev ?m))" by simp
  with 3 4 show ?thesis by blast
qed

lemma py_strip_ends:
  "py_strip s = [] \<or> (\<not> py_isspace (hd (py_strip s)) \<and> \<not> py_isspace (last (py_strip s)))"
proof (cases "py_strip s = []")
  case True then show ?thesis by simp
next
  case False
  let ?P = py_isspace
  let ?m = "dropWhile ?P s"
  let ?r = "dropWhile ?P (rev ?m)"
  have r: "?r \<noteq> []" using False by (simp add: py_strip_def)
  have l: "\<not> ?P (hd ?r)" using r by (rule hd_dropWhile)
  then have last: "\<not> ?P (last (py_strip s))"
    using r by (simp add: py_strip_def last_rev)
  have "?m \<noteq> []"
  proof
    assume "?m = []"
    then have "?r = []" by (metis dropWhile.simps(1) rev.simps(1))
    with r show False by simp
  qed
  then have hm: "\<not> ?P (hd ?m)" by (rule hd_dropWhile)
  have "rev ?m = takeWhile ?P (rev ?m) @ ?r" by simp
  then have "?m = rev ?r @ rev (takeWhile ?P (rev ?m))"
    by (metis rev_append rev_rev_ident)
  then have "hd ?m = hd (rev ?r)" using r by (metis hd_append2 rev_is_Nil_conv)
  with hm have "\<not> ?P (hd (py_strip s))" by (simp add: py_strip_def)
  with last show ?thesis by simp
qed

lemma load_keys_fails_iff:
  assumes "private_key_file w \<noteq> Undecodable"
  shows "(\<exists>e. fst (load_keys w) = Inl e) \<longleftrightarrow>
     (private_key_file w = Missing \<or> private_key_file w = Unreadable
      \<or> (\<exists>raw. private_key_file w = Content raw \<and> length raw < 32)
      \<or> public_key_file w = Missing \<or> public_key_file w = Unreadable
      \<or> public_key_file w = Undecodable)"
  using assms
  by (cases "private_key_file w"; cases "public_key_file w")
     (auto simp: load_keys_def read_file_def file_at_def log_event_def from_private_bytes_def)

text \<open>Every request \<^verbatim>\<open>authenticate()\<close> sends carries the text \<^verbatim>\<open>load_keys()\<close> returned.\<close>

lemma authenticate_public_key_verbatim:
  assumes "public_key_file w = Content pub"
  shows "list_all (\<lambda>r. py_getitem (req_json r) ''public_key'' = Inr (JString (py_strip pub)))
           (drop (length (requests_of (trace w))) (requests_of (trace (snd (authenticate sg w)))))"
proof (cases "load_keys w")
  case (Pair r w1)
  show ?thesis
  proof (cases r)
    case (Inl e)
    with Pair have "trace w1 = trace w @ [Opened PRIVATE_KEY_FILE ''rb'']
        \<or> trace w1 = trace w @ [Opened PRIVATE_KEY_FILE ''rb'', Opened PUBLIC_KEY_FILE ''r'']"
      by (auto simp: load_keys_def read_file_def file_at_def log_event_def Let_def
          split: file_state.splits sum.splits if_splits)
    with Pair Inl show ?thesis by (auto simp: authenticate_def)
  next
    case (Inr kp)
    obtain key pem where kp: "kp = (key, pem)" by (cases kp)
    from Pair Inr kp assms have pem: "pem = py_strip pub"
      and w1: "w1 = w\<lparr>trace := trace w @ [Opened PRIVATE_KEY_FILE ''rb'', Opened PUBLIC_KEY_FILE ''r'']\<rparr>"
      by (auto simp: load_keys_def read_file_def file_at_def log_event_def Let_def
          split: file_state.splits sum.splits if_splits)
    show ?thesis
      using Pair Inr kp pem w1
      by (auto simp: authenticate_def send_def log_event_def Let_def write_auth_file_def
          challenge_request_def authenticate_request_def py_getitem_def
          split: list.splits reply.splits sum.splits prod.splits)
  qed
qed

text \<open>The concrete inputs, evaluated.\<close>

lemma nonce_reply_parsed:
  \<open>json_loads ''{"nonce": "AAAA"}'' = Inr (JObject [(''nonce'', JString ''AAAA'')])\<close>
  by code_simp

lemma nonce_decoded:
  "py_b64decode (JString ''AAAA'') = Inr [CHR 0x00, CHR 0x00, CHR 0x00]"
  by code_simp

subsection \<open>A challenge that is refused\<close>

text \<open>
  C6, as the program has it. When the key files are in order and the challenge endpoint
  answers with a status from 400 to 599, \<^verbatim>\<open>authenticate()\<close> raises the \<^verbatim>\<open>HTTPError\<close> of
  \<^verbatim>\<open>raise_for_status()\<close>, which carries that status and body. It has then read the two
  key files and sent the challenge request, and nothing else: no second request is
  sent, the credential file is not opened and its content is what it was.
\<close>

theorem authenticate_challenge_error:
  assumes "private_key_file w = Content raw" and "32 \<le> length raw"
    and "public_key_file w = Content pub"
    and "network w = Reply st body # rest"
    and "400 \<le> st" and "st < 600"
  shows "authenticate sg w =
    (Inl (HTTPError st body),
     w\<lparr>network := rest,
       trace := trace w @ [Opened PRIVATE_KEY_FILE ''rb'', Opened PUBLIC_KEY_FILE ''r'',
                           Request (challenge_request (py_strip pub))]\<rparr>)"
  using assms
  by (simp add: authenticate_def load_keys_ok send_def log_event_def raise_for_status_def)

text \<open>The theorem at status 503.\<close>

theorem authenticate_challenge_error_witness:
  "authenticate stand_in_signer world_unavailable =
     (Inl (HTTPError 503 ''busy''),
      world_unavailable\<lparr>network := [],
        trace := [Opened PRIVATE_KEY_FILE ''rb'', Opened PUBLIC_KEY_FILE ''r'',
                  Request (challenge_request ''PEM'')]\<rparr>)"
  using authenticate_challenge_error [of world_unavailable
      "replicate 32 (CHR ''k'') @ ''trailing''" "''PEM\<newline>''" 503 "''busy''" "[]"
      stand_in_signer]
  by (simp add: world_unavailable_def world_with_def py_strip_def py_isspace_def)

text \<open>
  C6 as stated, for every status outside 200 to 299, fails: \<^verbatim>\<open>raise_for_status()\<close>
  raises for a status from 400 to 599 only. At status 300 \<^verbatim>\<open>authenticate()\<close> goes on,
  returns the token of the second answer and has replaced the credential file.
\<close>

theorem authenticate_status_300_counterexample:
  \<open>network world_multiple_choices = [Reply 300 ''{"nonce": "AAAA"}'', Reply 200 ''{"token": "t"}'']
   \<and> fst (authenticate stand_in_signer world_multiple_choices) = Inr (JString ''t'')
   \<and> auth_file world_multiple_choices = Content ''{"token": "old"}''
   \<and> auth_file (snd (authenticate stand_in_signer world_multiple_choices))
       = Content (json_dumps (JObject [(''token'', JString ''t'')]))\<close>
  by code_simp

subsection \<open>An answer without a token\<close>

text \<open>
  C2, as the program has it. When the key files are in order, both requests are
  answered with a status from 200 to 299, the first answer holds a nonce that decodes,
  the second answer is a JSON object without the key \<^verbatim>\<open>token\<close>, and the credential file
  can be written, then \<^verbatim>\<open>authenticate()\<close> raises \<^verbatim>\<open>KeyError('token')\<close>, after it has
  replaced the credential file by the answer: the file is written on line 54, before
  line 56 looks the token up.
\<close>

theorem authenticate_without_token:
  assumes "private_key_file w = Content raw" and "32 \<le> length raw"
    and "public_key_file w = Content pub"
    and "network w = Reply st1 b1 # Reply st2 b2 # rest"
    and "200 \<le> st1" and "st1 < 300" and "200 \<le> st2" and "st2 < 300"
    and "json_loads b1 = Inr challenge"
    and "py_getitem challenge ''nonce'' = Inr nonce_b64"
    and "py_b64decode nonce_b64 = Inr nonce"
    and "json_loads b2 = Inr (JObject kvs)" and "map_of kvs ''token'' = None"
    and "auth_file_writable w" and "auth_file w \<noteq> Unreadable"
  shows "fst (authenticate sg w) = Inl (KeyError ''token'')
       \<and> auth_file (snd (authenticate sg w)) = Content (json_dumps (JObject kvs))"
proof -
  have "\<not> (400 \<le> st1 \<and> st1 < 600)" and "\<not> (400 \<le> st2 \<and> st2 < 600)"
    using assms(6,8) by simp_all
  with assms show ?thesis
    by (simp add: authenticate_to_write [where sg = sg] write_auth_file_def log_event_def
        py_getitem_def Let_def split: file_state.splits)
qed

text \<open>The theorem where the second answer is \<^verbatim>\<open>{"agent": "a1"}\<close>.\<close>

theorem authenticate_without_token_witness:
  \<open>fst (authenticate stand_in_signer world_tokenless_reply) = Inl (KeyError ''token'')
   \<and> auth_file (snd (authenticate stand_in_signer world_tokenless_reply))
       = Content (json_dumps (JObject [(''agent'', JString ''a1'')]))\<close>
proof -
  have 2: "py_getitem (JObject [(''nonce'', JString ''AAAA'')]) ''nonce'' = Inr (JString ''AAAA'')"
    by (simp add: py_getitem_def)
  have 4: \<open>json_loads ''{"agent": "a1"}'' = Inr (JObject [(''agent'', JString ''a1'')])\<close>
    by code_simp
  show ?thesis
    using authenticate_without_token [of world_tokenless_reply
        "replicate 32 (CHR ''k'') @ ''trailing''" "''PEM\<newline>''"
        200 _ 200 _ "[]", OF _ _ _ _ _ _ _ _ nonce_reply_parsed 2 nonce_decoded 4,
        of stand_in_signer]
    by (simp add: world_tokenless_reply_def world_with_def)
qed

text \<open>
  C2 as stated fails in its second half: the credential file is modified. In
  \<open>world_tokenless_reply\<close> the call raises \<^verbatim>\<open>KeyError\<close>, and the file, which held
  \<^verbatim>\<open>{"token": "old"}\<close>, holds the answer without a token afterwards.
\<close>

theorem authenticate_without_token_counterexample:
  \<open>fst (authenticate stand_in_signer world_tokenless_reply) = Inl (KeyError ''token'')
   \<and> auth_file world_tokenless_reply = Content ''{"token": "old"}''
   \<and> auth_file (snd (authenticate stand_in_signer world_tokenless_reply))
       \<noteq> auth_file world_tokenless_reply\<close>
  by code_simp

subsection \<open>A cached token that has not expired\<close>

text \<open>
  C4 does not hold of the program for a token whose payload has a character of the
  URL-safe alphabet. The payload of \<open>underscore_token\<close> decodes as base64url to claims
  with \<^verbatim>\<open>exp = 1700003600\<close>, an hour after the time of the world, so that
  \<^verbatim>\<open>exp > time.time() + 120\<close>. Line 68 decodes it with \<^verbatim>\<open>base64.b64decode\<close>, which drops the
  \<^verbatim>\<open>_\<close>, and raises; the \<^verbatim>\<open>except\<close> clause swallows that, and \<^verbatim>\<open>get_token()\<close> does not return
  the cached token: it opens both key files, sends the challenge request and the
  authenticate request, overwrites the credential file, and returns the token the
  service issues.
\<close>

theorem get_token_unexpired_urlsafe_token_not_returned:
  "spec_token_claims (JString underscore_token)
     = Inr (JObject [(''sub'', JString ''??''), (''exp'', JInt 1700003600)])
   \<and> py_gt (JInt 1700003600)
        (float_add (clock (world_with (Content (credential_text underscore_token)) good_replies))
           (Finite 120 0)) = Inr True
   \<and> token_claims (JString underscore_token) = Inl BinasciiError
   \<and> get_token stand_in_signer (world_with (Content (credential_text underscore_token)) good_replies)
     = (Inr (JString ''new''),
        world_with (Content (json_dumps (JObject [(''token'', JString ''new'')]))) []
          \<lparr>trace := [Opened AUTH_FILE ''r'', Opened PRIVATE_KEY_FILE ''rb'',
                     Opened PUBLIC_KEY_FILE ''r'',
                     Request \<lparr>req_method = POST, req_url = ''https://gather.is/api/agents/challenge'',
                              req_authorization = None, req_params = JNull,
                              req_json = JObject [(''public_key'', JString ''PEM'')]\<rparr>,
                     Request \<lparr>req_method = POST, req_url = ''https://gather.is/api/agents/authenticate'',
                              req_authorization = None, req_params = JNull,
                              req_json = JObject [(''public_key'', JString ''PEM''),
                                (''signature'', JString (b64encode (replicate 64 (CHR 0x00))))]\<rparr>,
                     Opened AUTH_FILE ''w'']\<rparr>)"
  by code_simp

text \<open>
  X1. What the program does for the claims it reads itself. When the credential file
  holds JSON whose \<^verbatim>\<open>token\<close> is a string, the claims lines 66 to 68 read from that token
  (\<open>token_claims\<close>, with the standard alphabet) have an \<^verbatim>\<open>exp\<close>, and Python evaluates
  \<^verbatim>\<open>exp > time.time() + 120\<close>, the sum being that of two \<^verbatim>\<open>float\<close>s, to \<^verbatim>\<open>True\<close>, then
  \<^verbatim>\<open>get_token()\<close> returns exactly that string. The world it leaves differs from the one
  it found by one event, the read of the credential file: no key file is opened, no
  request is sent, no reply of the network is consumed, no file is written.
\<close>

theorem get_token_returns_cached:
  assumes "auth_file w = Content s" and "json_loads s = Inr auth"
    and "py_getitem auth ''token'' = Inr (JString tok)"
    and "token_claims (JString tok) = Inr claims"
    and "py_getitem claims ''exp'' = Inr expiry"
    and "py_gt expiry (float_add (clock w) (Finite 120 0)) = Inr True"
  shows "get_token sg w = (Inr (JString tok), w\<lparr>trace := trace w @ [Opened AUTH_FILE ''r'']\<rparr>)"
proof -
  have "token_unexpired (JString tok) (clock w) = Inr True"
    using assms(4-6) by (simp add: token_unexpired_def py_getitem_get)
  then show ?thesis
    using assms(1-3) by (simp add: get_token_cached py_getitem_get log_event_def)
qed

text \<open>The theorem for a token that expires an hour from now, in a world where the service
  would have issued another token.\<close>

theorem get_token_returns_cached_witness:
  "get_token stand_in_signer (world_with (Content (credential_text fresh_token)) good_replies)
   = (Inr (JString fresh_token),
      world_with (Content (credential_text fresh_token)) good_replies
        \<lparr>trace := [Opened AUTH_FILE ''r'']\<rparr>)"
proof -
  let ?w = "world_with (Content (credential_text fresh_token)) good_replies"
  have 1: "json_loads (credential_text fresh_token) = Inr (JObject [(''token'', JString fresh_token)])"
    by code_simp
  have 2: "py_getitem (JObject [(''token'', JString fresh_token)]) ''token'' = Inr (JString fresh_token)"
    by (simp add: py_getitem_def)
  have 3: "token_claims (JString fresh_token) = Inr (JObject [(''exp'', JInt 1700003600)])"
    by code_simp
  have 4: "py_getitem (JObject [(''exp'', JInt 1700003600)]) ''exp'' = Inr (JInt 1700003600)"
    by (simp add: py_getitem_def)
  have 5: "py_gt (JInt 1700003600) (float_add (clock ?w) (Finite 120 0)) = Inr True"
    by code_simp
  show ?thesis
    using get_token_returns_cached [of ?w "credential_text fresh_token", OF _ 1 2 3 4 5,
        of stand_in_signer]
    by (simp add: world_with_def)
qed

subsection \<open>A cached token that has expired or cannot be read\<close>

text \<open>
  C5 does not hold of the program for a payload that is not base64url and that
  \<^verbatim>\<open>base64.b64decode\<close> decodes all the same. The payload of \<open>stray_token\<close> has 25
  characters, the last a \<^verbatim>\<open>_\<close>: as base64url it does not decode, so the token has no
  claims that can be read. Line 68 decodes it with \<^verbatim>\<open>base64.b64decode\<close>, which drops the
  \<^verbatim>\<open>_\<close> and decodes the 24 characters before it to \<^verbatim>\<open>{"exp":9999999999}\<close>, and
  \<^verbatim>\<open>get_token()\<close> returns the cached token: the read of the credential file is the only
  event, no key file is opened and no request is sent, although the service would have
  answered. With the token \<^verbatim>\<open>abc\<close>, which has no payload, it authenticates.
\<close>

theorem get_token_stray_payload_returned:
  "spec_token_claims (JString stray_token) = Inl BinasciiError
   \<and> token_claims (JString stray_token) = Inr (JObject [(''exp'', JInt 9999999999)])
   \<and> get_token stand_in_signer (world_with (Content (credential_text stray_token)) good_replies)
     = (Inr (JString stray_token),
        world_with (Content (credential_text stray_token)) good_replies
          \<lparr>trace := [Opened AUTH_FILE ''r'']\<rparr>)
   \<and> requests_of (trace (snd (get_token stand_in_signer
        (world_with (Content (credential_text stray_token)) good_replies)))) = []
   \<and> fst (get_token stand_in_signer (world_with (Content (credential_text ''abc'')) good_replies))
     = Inr (JString ''new'')"
  by code_simp

text \<open>
  X2. What the program does for the claims it reads itself. When the credential file
  holds a JSON object, \<open>token\<close> is what \<^verbatim>\<open>auth.get("token", "")\<close> gives, and either the
  claims lines 66 to 68 read from the token have an \<^verbatim>\<open>exp\<close> (0 when they have none) for
  which Python evaluates \<^verbatim>\<open>exp > time.time() + 120\<close> to \<^verbatim>\<open>False\<close> (so also when \<^verbatim>\<open>exp\<close> equals
  the sum), or the \<^verbatim>\<open>try\<close> statement raises (no payload segment, a payload that does not
  decode, a text that does not parse, claims that are no object, an \<^verbatim>\<open>exp\<close> that is no
  number), then \<^verbatim>\<open>get_token()\<close> is \<^verbatim>\<open>authenticate()\<close>, run after the read of the credential
  file. And that is the full cycle: when the key files are in order and the
  challenge is answered with a nonce, the events after the read are the reads of the
  two key files, the POST of the public key to the challenge endpoint and the POST to
  the authenticate endpoint of the public key and the base64 of the signature, made
  with the first 32 bytes of the private key file, of the decoded nonce; the only event
  that can follow is the write of the credential file.
\<close>

theorem get_token_reauthenticates:
  assumes "auth_file w = Content s" and "json_loads s = Inr auth"
    and "py_get auth ''token'' (JString []) = Inr token"
    and "(\<exists>claims expiry. token_claims token = Inr claims
            \<and> py_get claims ''exp'' (JInt 0) = Inr expiry
            \<and> py_gt expiry (float_add (clock w) (Finite 120 0)) = Inr False)
         \<or> (\<exists>e. token_unexpired token (clock w) = Inl e \<and> e \<noteq> Unmodelled)"
  shows "get_token sg w = authenticate sg (log_event (Opened AUTH_FILE ''r'') w)
    \<and> (\<forall>raw pub st1 b1 rest challenge nonce_b64 nonce.
          private_key_file w = Content raw \<and> 32 \<le> length raw
          \<and> public_key_file w = Content pub
          \<and> network w = Reply st1 b1 # rest \<and> \<not> (400 \<le> st1 \<and> st1 < 600)
          \<and> json_loads b1 = Inr challenge
          \<and> py_getitem challenge ''nonce'' = Inr nonce_b64
          \<and> py_b64decode nonce_b64 = Inr nonce
          \<longrightarrow> (\<exists>tail. trace (snd (get_token sg w)) =
                  trace w @ [Opened AUTH_FILE ''r'',
                             Opened PRIVATE_KEY_FILE ''rb'', Opened PUBLIC_KEY_FILE ''r'',
                             Request \<lparr>req_method = POST,
                               req_url = ''https://gather.is/api/agents/challenge'',
                               req_authorization = None, req_params = JNull,
                               req_json = JObject [(''public_key'', JString (py_strip pub))]\<rparr>,
                             Request \<lparr>req_method = POST,
                               req_url = ''https://gather.is/api/agents/authenticate'',
                               req_authorization = None, req_params = JNull,
                               req_json = JObject [(''public_key'', JString (py_strip pub)),
                                 (''signature'', JString (b64encode (sg (take 32 raw) nonce)))]\<rparr>]
                            @ tail
                \<and> (tail = [] \<or> tail = [Opened AUTH_FILE ''w''])))"
proof -
  let ?w1 = "log_event (Opened AUTH_FILE ''r'') w"
  have stale: "token_unexpired token (clock w) = Inr False
      \<or> (\<exists>e. token_unexpired token (clock w) = Inl e \<and> e \<noteq> Unmodelled)"
    using assms(4) by (auto simp: token_unexpired_def)
  have eq: "get_token sg w = authenticate sg ?w1"
    using stale assms(1-3)
    by (auto simp: get_token_cached Let_def)
  have cycle: "\<exists>tail. trace (snd (authenticate sg ?w1)) =
                  trace w @ [Opened AUTH_FILE ''r'',
                             Opened PRIVATE_KEY_FILE ''rb'', Opened PUBLIC_KEY_FILE ''r'',
                             Request (challenge_request (py_strip pub)),
                             Request (authenticate_request (py_strip pub)
                                       (b64encode (sg (take 32 raw) nonce)))] @ tail
                \<and> (tail = [] \<or> tail = [Opened AUTH_FILE ''w''])"
    if "private_key_file w = Content raw" "32 \<le> length raw"
       "public_key_file w = Content pub"
       "network w = Reply st1 b1 # rest" "\<not> (400 \<le> st1 \<and> st1 < 600)"
       "json_loads b1 = Inr challenge"
       "py_getitem challenge ''nonce'' = Inr nonce_b64"
       "py_b64decode nonce_b64 = Inr nonce"
    for raw pub st1 b1 rest challenge nonce_b64 nonce
    using authenticate_two_requests [of ?w1 raw pub st1 b1 rest challenge nonce_b64 nonce sg] that
    by (simp add: log_event_def)
  show ?thesis
    unfolding eq using eq cycle
    by (simp only: challenge_request_def authenticate_request_def BASE_URL_def append.simps) blast
qed

text \<open>The theorem at the boundary: the token expires exactly 120 seconds from now. The
  token returned is the one the service issues, and both requests have been sent.\<close>

theorem get_token_reauthenticates_witness:
  "get_token stand_in_signer (world_with (Content (credential_text boundary_token)) good_replies)
     = authenticate stand_in_signer
         (log_event (Opened AUTH_FILE ''r'')
            (world_with (Content (credential_text boundary_token)) good_replies))
   \<and> fst (get_token stand_in_signer
             (world_with (Content (credential_text boundary_token)) good_replies))
     = Inr (JString ''new'')
   \<and> requests_of (trace (snd (get_token stand_in_signer
             (world_with (Content (credential_text boundary_token)) good_replies))))
     = [\<lparr>req_method = POST, req_url = ''https://gather.is/api/agents/challenge'',
         req_authorization = None, req_params = JNull,
         req_json = JObject [(''public_key'', JString ''PEM'')]\<rparr>,
        \<lparr>req_method = POST, req_url = ''https://gather.is/api/agents/authenticate'',
         req_authorization = None, req_params = JNull,
         req_json = JObject [(''public_key'', JString ''PEM''),
           (''signature'', JString (b64encode
              (stand_in_signer (replicate 32 (CHR ''k'')) [CHR 0x00, CHR 0x00, CHR 0x00])))]\<rparr>]"
proof -
  let ?w = "world_with (Content (credential_text boundary_token)) good_replies"
  have 0: "auth_file ?w = Content (credential_text boundary_token)"
    by (simp add: world_with_def)
  have 1: "json_loads (credential_text boundary_token)
      = Inr (JObject [(''token'', JString boundary_token)])"
    by code_simp
  have 2: "py_get (JObject [(''token'', JString boundary_token)]) ''token'' (JString [])
      = Inr (JString boundary_token)"
    by (simp add: py_get_def)
  have 3: "token_claims (JString boundary_token) = Inr (JObject [(''exp'', JInt 1700000120)])"
    by code_simp
  have 4: "py_get (JObject [(''exp'', JInt 1700000120)]) ''exp'' (JInt 0) = Inr (JInt 1700000120)"
    by (simp add: py_get_def)
  have 5: "py_gt (JInt 1700000120) (float_add (clock ?w) (Finite 120 0)) = Inr False"
    by code_simp
  have stale: "(\<exists>claims expiry. token_claims (JString boundary_token) = Inr claims
            \<and> py_get claims ''exp'' (JInt 0) = Inr expiry
            \<and> py_gt expiry (float_add (clock ?w) (Finite 120 0)) = Inr False)
         \<or> (\<exists>e. token_unexpired (JString boundary_token) (clock ?w) = Inl e \<and> e \<noteq> Unmodelled)"
    using 3 4 5 by blast
  have a: "get_token stand_in_signer ?w
      = authenticate stand_in_signer (log_event (Opened AUTH_FILE ''r'') ?w)"
    by (rule conjunct1 [OF get_token_reauthenticates [OF 0 1 2 stale]])
  have b: "fst (get_token stand_in_signer ?w) = Inr (JString ''new'')"
    by code_simp
  have c: "requests_of (trace (snd (get_token stand_in_signer ?w)))
     = [\<lparr>req_method = POST, req_url = ''https://gather.is/api/agents/challenge'',
         req_authorization = None, req_params = JNull,
         req_json = JObject [(''public_key'', JString ''PEM'')]\<rparr>,
        \<lparr>req_method = POST, req_url = ''https://gather.is/api/agents/authenticate'',
         req_authorization = None, req_params = JNull,
         req_json = JObject [(''public_key'', JString ''PEM''),
           (''signature'', JString (b64encode
              (stand_in_signer (replicate 32 (CHR ''k'')) [CHR 0x00, CHR 0x00, CHR 0x00])))]\<rparr>]"
    by code_simp
  from a b c show ?thesis by blast
qed

subsection \<open>A credential file without a token\<close>

text \<open>
  X3. When the credential file holds a JSON object without the key \<^verbatim>\<open>token\<close>,
  \<^verbatim>\<open>auth.get("token", "")\<close> is the empty string, the \<^verbatim>\<open>try\<close> statement raises
  \<^verbatim>\<open>IndexError\<close> (the empty string has no second segment), which the \<^verbatim>\<open>except\<close> clause
  swallows, and \<^verbatim>\<open>get_token()\<close> is \<^verbatim>\<open>authenticate()\<close>, run after the read of the credential
  file; without that file, \<^verbatim>\<open>get_token()\<close> is \<^verbatim>\<open>authenticate()\<close> as well.
\<close>

theorem get_token_without_token_key:
  assumes "auth_file w = Content s" and "json_loads s = Inr (JObject kvs)"
    and "map_of kvs ''token'' = None"
  shows "py_get (JObject kvs) ''token'' (JString []) = Inr (JString [])
       \<and> token_unexpired (JString []) (clock w) = Inl IndexError
       \<and> get_token sg w = authenticate sg (log_event (Opened AUTH_FILE ''r'') w)
       \<and> get_token sg (w\<lparr>auth_file := Missing\<rparr>) = authenticate sg (w\<lparr>auth_file := Missing\<rparr>)"
proof -
  have 1: "py_get (JObject kvs) ''token'' (JString []) = Inr (JString [])"
    using assms(3) by (simp add: py_get_def)
  have 2: "token_unexpired (JString []) (clock w) = Inl IndexError"
    by (simp add: token_unexpired_def token_claims_def py_str_split_def py_index_def)
  show ?thesis
    using assms(1,2) 1 2 by (simp add: get_token_cached [where sg = sg] get_token_missing)
qed

text \<open>The theorem for the credential file \<^verbatim>\<open>{"agent": "a1"}\<close>.\<close>

theorem get_token_without_token_key_witness:
  \<open>get_token stand_in_signer (world_with (Content ''{"agent": "a1"}'') good_replies)
     = authenticate stand_in_signer
         (log_event (Opened AUTH_FILE ''r'') (world_with (Content ''{"agent": "a1"}'') good_replies))
   \<and> fst (get_token stand_in_signer (world_with (Content ''{"agent": "a1"}'') good_replies))
     = Inr (JString ''new'')\<close>
proof -
  let ?w = \<open>world_with (Content ''{"agent": "a1"}'') good_replies\<close>
  have 0: \<open>auth_file ?w = Content ''{"agent": "a1"}''\<close>
    by (simp add: world_with_def)
  have 1: \<open>json_loads ''{"agent": "a1"}'' = Inr (JObject [(''agent'', JString ''a1'')])\<close>
    by code_simp
  have 2: "map_of [(''agent'', JString ''a1'')] ''token'' = None"
    by simp
  have a: "get_token stand_in_signer ?w
      = authenticate stand_in_signer (log_event (Opened AUTH_FILE ''r'') ?w)"
    using get_token_without_token_key [OF 0 1 2, of stand_in_signer] by blast
  have b: "fst (get_token stand_in_signer ?w) = Inr (JString ''new'')"
    by code_simp
  from a b show ?thesis by blast
qed

text \<open>
  C10 does not hold of the program. The credential file \<^verbatim>\<open>[]\<close> is valid JSON and has no
  \<^verbatim>\<open>token\<close> key; \<^verbatim>\<open>auth.get("token", "")\<close> on line 63 raises \<^verbatim>\<open>AttributeError\<close> (a list has
  no \<^verbatim>\<open>get\<close>), and line 63 stands before the \<^verbatim>\<open>try\<close> statement: \<^verbatim>\<open>get_token()\<close> raises, after
  the read of the credential file and nothing else, although the service would have
  issued a token. The paths beside it do what the claim says: with the file
  \<^verbatim>\<open>{"agent": "a1"}\<close>, with a token whose claims are the list \<^verbatim>\<open>[]\<close> (the same
  \<^verbatim>\<open>AttributeError\<close>, raised by \<^verbatim>\<open>claims.get\<close> on line 69 inside the \<^verbatim>\<open>try\<close> statement), and
  without the file, \<^verbatim>\<open>get_token()\<close> authenticates and returns the token issued.
\<close>

theorem get_token_json_array_raises:
  \<open>json_loads ''[]'' = Inr (JArray [])
   \<and> get_token stand_in_signer (world_with (Content ''[]'') good_replies)
     = (Inl AttributeError, world_with (Content ''[]'') good_replies \<lparr>trace := [Opened AUTH_FILE ''r'']\<rparr>)
   \<and> fst (get_token stand_in_signer (world_with (Content ''{"agent": "a1"}'') good_replies))
     = Inr (JString ''new'')
   \<and> token_claims (JString list_claims_token) = Inr (JArray [])
   \<and> token_unexpired (JString list_claims_token) (Finite 1700000000 0) = Inl AttributeError
   \<and> fst (get_token stand_in_signer
            (world_with (Content (credential_text list_claims_token)) good_replies))
     = Inr (JString ''new'')
   \<and> fst (get_token stand_in_signer (world_with Missing good_replies)) = Inr (JString ''new'')\<close>
  by code_simp

subsection \<open>A credential file that cannot be read or parsed\<close>

text \<open>
  C1 does not hold of the program. \<^verbatim>\<open>json.load(f)\<close> on line 62 and \<^verbatim>\<open>open(AUTH_FILE)\<close> on
  line 61 stand before the \<^verbatim>\<open>try\<close> statement, so what they raise leaves \<^verbatim>\<open>get_token()\<close>.
  With a credential file cut off in the middle, \<^verbatim>\<open>get_token()\<close> raises
  \<^verbatim>\<open>JSONDecodeError\<close>; with one that cannot be opened, \<^verbatim>\<open>PermissionError\<close>; in both cases
  after the read of the credential file and nothing else, although the service would
  have issued a token, as it does in the same world without the file.
\<close>

theorem get_token_unusable_cache_raises:
  \<open>get_token stand_in_signer (world_with (Content ''{"token": "abc'') good_replies)
     = (Inl JSONDecodeError,
        world_with (Content ''{"token": "abc'') good_replies \<lparr>trace := [Opened AUTH_FILE ''r'']\<rparr>)
   \<and> get_token stand_in_signer (world_with Unreadable good_replies)
     = (Inl PermissionError, world_with Unreadable good_replies \<lparr>trace := [Opened AUTH_FILE ''r'']\<rparr>)
   \<and> fst (get_token stand_in_signer (world_with Missing good_replies)) = Inr (JString ''new'')\<close>
  by code_simp

subsection \<open>An API call that is refused\<close>

text \<open>
  C3 does not hold of \<^verbatim>\<open>api_get\<close>. With a cached token that has not expired and a
  service that answers 403, \<^verbatim>\<open>api_get\<close> raises the \<^verbatim>\<open>HTTPError\<close> with status and body, and
  prints nothing: the events are the read of the credential file and the request.
  \<^verbatim>\<open>api_post\<close> and \<^verbatim>\<open>api_put\<close>, in the same world, print the line \<^verbatim>\<open>ERROR 403: forbidden\<close>
  before they raise.
\<close>

theorem api_get_error_not_printed:
  \<open>api_get stand_in_signer ''/api/balance'' JNull
       (world_with (Content (credential_text fresh_token)) [Reply 403 ''forbidden''])
     = (Inl (HTTPError 403 ''forbidden''),
        world_with (Content (credential_text fresh_token)) []
          \<lparr>trace := [Opened AUTH_FILE ''r'',
                     Request \<lparr>req_method = GET, req_url = ''https://gather.is/api/balance'',
                              req_authorization = Some (''Bearer '' @ fresh_token),
                              req_params = JNull, req_json = JNull\<rparr>]\<rparr>)
   \<and> stderr_of (trace (snd (api_get stand_in_signer ''/api/balance'' JNull
       (world_with (Content (credential_text fresh_token)) [Reply 403 ''forbidden'']))))
     = []
   \<and> stderr_of (trace (snd (api_post stand_in_signer ''/api/balance'' JNull
       (world_with (Content (credential_text fresh_token)) [Reply 403 ''forbidden'']))))
     = [''ERROR 403: forbidden'']
   \<and> stderr_of (trace (snd (api_put stand_in_signer ''/api/balance'' JNull
       (world_with (Content (credential_text fresh_token)) [Reply 403 ''forbidden'']))))
     = [''ERROR 403: forbidden'']\<close>
  by code_simp

subsection \<open>A payload in the URL-safe alphabet\<close>

text \<open>
  C7 does not hold of the program in its first half: line 68 decodes the payload with
  \<^verbatim>\<open>base64.b64decode\<close>, the standard alphabet, which drops a \<^verbatim>\<open>-\<close> or \<^verbatim>\<open>_\<close>. The payload of
  \<open>urlsafe_token\<close> decodes as base64url to claims with \<^verbatim>\<open>exp = 9999999999\<close>, far beyond
  the time 1700000000 of the world; the program's decoding raises ("Incorrect padding",
  one character being dropped), the \<^verbatim>\<open>except\<close> clause swallows it, and \<^verbatim>\<open>get_token()\<close>
  authenticates anew and returns the token the service issues, not the cached one.
\<close>

theorem get_token_urlsafe_payload_rejected:
  "spec_token_claims (JString urlsafe_token)
     = Inr (JObject [(''sub'', JString ''agent>>1''), (''exp'', JInt 9999999999)])
   \<and> token_claims (JString urlsafe_token) = Inl BinasciiError
   \<and> fst (get_token stand_in_signer (world_with (Content (credential_text urlsafe_token)) good_replies))
     = Inr (JString ''new'')
   \<and> length (requests_of (trace (snd (get_token stand_in_signer
        (world_with (Content (credential_text urlsafe_token)) good_replies))))) = 2"
  by code_simp

subsection \<open>Loading the keys\<close>

text \<open>
  C8, as the program has it, for a private key file whose bytes the model holds.
  \<^verbatim>\<open>load_keys()\<close> makes the private key from exactly the first 32 bytes of the private key
  file, whatever follows them. It raises exactly when a key file is missing or cannot
  be opened, the private key file holds fewer than 32 bytes, or the public key file is
  not text; no other content of the public key file makes it raise. The public key it
  returns is the text of the file without the white space at its two ends, and every
  request \<^verbatim>\<open>authenticate()\<close> sends carries that text as \<^verbatim>\<open>public_key\<close>.
\<close>

theorem load_keys_contract:
  assumes "private_key_file w \<noteq> Undecodable"
  shows "(\<forall>seed extra pub.
            private_key_file w = Content (seed @ extra) \<and> length seed = 32
            \<and> public_key_file w = Content pub
            \<longrightarrow> fst (load_keys w) = Inr (Ed25519PrivateKey seed, py_strip pub))
    \<and> ((\<exists>e. fst (load_keys w) = Inl e) \<longleftrightarrow>
         (private_key_file w = Missing \<or> private_key_file w = Unreadable
          \<or> (\<exists>raw. private_key_file w = Content raw \<and> length raw < 32)
          \<or> public_key_file w = Missing \<or> public_key_file w = Unreadable
          \<or> public_key_file w = Undecodable))
    \<and> (\<forall>pub. public_key_file w = Content pub \<longrightarrow>
          (\<exists>a b. pub = a @ py_strip pub @ b \<and> list_all py_isspace a \<and> list_all py_isspace b)
          \<and> (py_strip pub = []
               \<or> (\<not> py_isspace (hd (py_strip pub)) \<and> \<not> py_isspace (last (py_strip pub))))
          \<and> list_all (\<lambda>r. py_getitem (req_json r) ''public_key'' = Inr (JString (py_strip pub)))
               (drop (length (requests_of (trace w)))
                  (requests_of (trace (snd (authenticate sg w))))))"
proof (intro conjI allI impI)
  fix seed extra pub
  assume "private_key_file w = Content (seed @ extra) \<and> length seed = 32
            \<and> public_key_file w = Content pub"
  then show "fst (load_keys w) = Inr (Ed25519PrivateKey seed, py_strip pub)"
    by (simp add: load_keys_ok [of w "seed @ extra" pub])
next
  show "(\<exists>e. fst (load_keys w) = Inl e) \<longleftrightarrow>
         (private_key_file w = Missing \<or> private_key_file w = Unreadable
          \<or> (\<exists>raw. private_key_file w = Content raw \<and> length raw < 32)
          \<or> public_key_file w = Missing \<or> public_key_file w = Unreadable
          \<or> public_key_file w = Undecodable)"
    using assms by (rule load_keys_fails_iff)
next
  fix pub
  show "\<exists>a b. pub = a @ py_strip pub @ b \<and> list_all py_isspace a \<and> list_all py_isspace b"
    by (rule py_strip_decomp)
next
  fix pub
  show "py_strip pub = []
      \<or> (\<not> py_isspace (hd (py_strip pub)) \<and> \<not> py_isspace (last (py_strip pub)))"
    by (rule py_strip_ends)
next
  fix pub
  assume "public_key_file w = Content pub"
  then show "list_all (\<lambda>r. py_getitem (req_json r) ''public_key'' = Inr (JString (py_strip pub)))
               (drop (length (requests_of (trace w)))
                  (requests_of (trace (snd (authenticate sg w)))))"
    by (rule authenticate_public_key_verbatim)
qed

text \<open>The theorem for a private key file of 32 bytes followed by 8 more and a public key
  file that ends in a line break.\<close>

theorem load_keys_contract_witness:
  "fst (load_keys (world_with Missing good_replies))
     = Inr (Ed25519PrivateKey (replicate 32 (CHR ''k'')), ''PEM'')"
proof -
  let ?w = "world_with Missing good_replies"
  have 0: "private_key_file ?w \<noteq> Undecodable"
    by (simp add: world_with_def)
  have 1: "private_key_file ?w = Content (replicate 32 (CHR ''k'') @ ''trailing'')
      \<and> length (replicate 32 (CHR ''k'')) = 32
      \<and> public_key_file ?w = Content ''PEM\<newline>''"
    by (simp add: world_with_def)
  have "fst (load_keys ?w)
      = Inr (Ed25519PrivateKey (replicate 32 (CHR ''k'')), py_strip ''PEM\<newline>'')"
    using load_keys_contract [OF 0, of stand_in_signer] 1 by blast
  then show ?thesis
    by (simp add: py_strip_def py_isspace_def)
qed

text \<open>
  C8 as stated has \<^verbatim>\<open>load_keys()\<close> fail when either key file is structurally invalid. It
  does not look at the public key file's content: with the public key file
  \<^verbatim>\<open>not a key\<close>, \<^verbatim>\<open>load_keys()\<close> returns, and returns that text as the public key.
\<close>

theorem load_keys_unchecked_public_key_counterexample:
  "public_key_file world_no_public_key = Content ''not a key''
   \<and> fst (load_keys world_no_public_key)
     = Inr (Ed25519PrivateKey (replicate 32 (CHR ''k'')), ''not a key'')"
  by code_simp

subsection \<open>Writing the credential and reading it back\<close>

text \<open>A string: \<^verbatim>\<open>scanstring\<close> reads back what \<open>encode_string\<close> wrote.\<close>

lemma hex_digits_all: "list_all (\<lambda>k. hex_value (hex_digit k) = Some k) [0..<16]"
  by code_simp

lemma hex_value_digit: "k < 16 \<Longrightarrow> hex_value (hex_digit k) = Some k"
  using hex_digits_all by (simp add: list_all_iff)

lemma hex4_escape:
  "hex4 (CHR ''0'') (CHR ''0'') (hex_digit ((of_char c :: nat) div 16)) (hex_digit ((of_char c :: nat) mod 16))
     = Some (of_char c)"
proof -
  have a: "(of_char c :: nat) div 16 < 16"
    using nat_of_char_less_256 [of c] by (simp add: less_mult_imp_div_less) 
  have b: "(of_char c :: nat) mod 16 < 16" by simp
  have z: "hex_value (CHR ''0'') = Some 0" by (simp add: hex_value_def)
  show ?thesis
    by (simp add: hex4_def z hex_value_digit [OF a] hex_value_digit [OF b])
qed

lemma scanstring_escape_char:
  "scanstring acc (escape_char c @ rest) = scanstring (c # acc) rest"
proof -
  consider (dq) "c = dquote" | (bs) "c = backslash" | (n) "c = CHR 0x0A" | (r) "c = CHR 0x0D"
    | (t) "c = CHR 0x09" | (b) "c = CHR 0x08" | (f) "c = CHR 0x0C"
    | (plain) "c \<noteq> dquote" "c \<noteq> backslash" "32 \<le> (of_char c :: nat)" "(of_char c :: nat) \<le> 126"
    | (uni) "c \<noteq> dquote" "c \<noteq> backslash" "c \<noteq> CHR 0x0A" "c \<noteq> CHR 0x0D" "c \<noteq> CHR 0x09"
        "c \<noteq> CHR 0x08" "c \<noteq> CHR 0x0C" "\<not> (32 \<le> (of_char c :: nat) \<and> (of_char c :: nat) \<le> 126)"
    by blast
  then show ?thesis
  proof cases
    case dq then show ?thesis by (simp add: escape_char_def unescape_def dquote_def backslash_def)
  next
    case bs then show ?thesis by (simp add: escape_char_def unescape_def dquote_def backslash_def)
  next
    case n then show ?thesis by (simp add: escape_char_def unescape_def dquote_def backslash_def)
  next
    case r then show ?thesis by (simp add: escape_char_def unescape_def dquote_def backslash_def)
  next
    case t then show ?thesis by (simp add: escape_char_def unescape_def dquote_def backslash_def)
  next
    case b then show ?thesis by (simp add: escape_char_def unescape_def dquote_def backslash_def)
  next
    case f then show ?thesis by (simp add: escape_char_def unescape_def dquote_def backslash_def)
  next
    case plain
    then have "c \<noteq> CHR 0x0A" "c \<noteq> CHR 0x0D" "c \<noteq> CHR 0x09" "c \<noteq> CHR 0x08" "c \<noteq> CHR 0x0C"
      by auto
    with plain show ?thesis by (simp add: escape_char_def)
  next
    case uni
    have lt: "(of_char c :: nat) < 256" by (rule nat_of_char_less_256)
    show ?thesis
      using uni lt
      by (simp add: escape_char_def unescape_def dquote_def backslash_def hex4_escape)
  qed
qed

lemma scanstring_escaped:
  "scanstring acc (concat (map escape_char s) @ dquote # rest) = Parsed (rev acc @ s) rest"
proof (induction s arbitrary: acc)
  case Nil
  then show ?case by simp
next
  case (Cons c s)
  have "scanstring acc (concat (map escape_char (c # s)) @ dquote # rest)
      = scanstring acc (escape_char c @ (concat (map escape_char s) @ dquote # rest))"
    by simp
  also have "\<dots> = scanstring (c # acc) (concat (map escape_char s) @ dquote # rest)"
    by (rule scanstring_escape_char)
  also have "\<dots> = Parsed (rev (c # acc) @ s) rest"
    by (rule Cons.IH)
  finally show ?case by simp
qed

text \<open>A number: \<open>scan_number\<close> reads back what \<open>show_int\<close> wrote.\<close>

lemma digit_chars_all:
  "list_all (\<lambda>d. is_digit (digit_char d) \<and> (of_char (digit_char d) :: int) - 48 = d
       \<and> (digit_char d = CHR ''0'' \<longleftrightarrow> d = 0)) [0, 1, 2, 3, 4, 5, 6, 7, 8, 9]"
  by code_simp

lemma digit_char_props:
  assumes "0 \<le> d" and "d < 10"
  shows "is_digit (digit_char d)" and "(of_char (digit_char d) :: int) - 48 = d"
    and "digit_char d = CHR ''0'' \<longleftrightarrow> d = 0"
proof -
  have "d = 0 \<or> d = 1 \<or> d = 2 \<or> d = 3 \<or> d = 4 \<or> d = 5 \<or> d = 6 \<or> d = 7 \<or> d = 8 \<or> d = 9"
    using assms by arith
  then have "d \<in> set [0, 1, 2, 3, 4, 5, 6, 7, 8, 9]" by auto
  with digit_chars_all
  have "is_digit (digit_char d) \<and> (of_char (digit_char d) :: int) - 48 = d
       \<and> (digit_char d = CHR ''0'' \<longleftrightarrow> d = 0)"
    unfolding list_all_iff by blast
  then show "is_digit (digit_char d)" and "(of_char (digit_char d) :: int) - 48 = d"
    and "digit_char d = CHR ''0'' \<longleftrightarrow> d = 0" by blast+
qed

lemma digits_value_snoc: "digits_value (ds @ [d]) = digits_value ds * 10 + (of_char d - 48)"
  by (simp add: digits_value_def)

lemma show_digits_props:
  "0 \<le> n \<Longrightarrow> show_digits n \<noteq> [] \<and> list_all is_digit (show_digits n)
      \<and> digits_value (show_digits n) = n
      \<and> (hd (show_digits n) = CHR ''0'' \<longrightarrow> n = 0)"
proof (induction n rule: show_digits.induct)
  case (1 n)
  show ?case
  proof (cases "n < 10")
    case True
    with 1(2) show ?thesis
      by (simp add: show_digits.simps [of n] digit_char_props digits_value_def)
  next
    case False
    then have q: "0 \<le> n div 10" and pos: "0 < n div 10" and m: "0 \<le> n mod 10" "n mod 10 < 10"
      by auto
    from 1(1) [OF False q] have ih: "show_digits (n div 10) \<noteq> []"
      "list_all is_digit (show_digits (n div 10))"
      "digits_value (show_digits (n div 10)) = n div 10"
      "hd (show_digits (n div 10)) = CHR ''0'' \<longrightarrow> n div 10 = 0"
      by simp_all
    have sd: "show_digits n = show_digits (n div 10) @ [digit_char (n mod 10)]"
      using False by (simp add: show_digits.simps [of n])
    show ?thesis
      using ih pos m False
      by (simp add: sd digits_value_snoc digit_char_props)
  qed
qed

lemma show_digits_zero: "show_digits 0 = ''0''"
  by code_simp

lemma ends_value_facts:
  assumes "ends_value rest"
  shows "\<not> float_follows rest" and "takeWhile is_digit rest = []" and "dropWhile is_digit rest = rest"
  using assms by (auto simp: ends_value_def float_follows_def is_digit_def split: list.splits)

lemma scan_digits:
  assumes "0 \<le> n" and "ends_value rest"
  shows "takeWhile is_digit (show_digits n @ rest) = show_digits n"
    and "dropWhile is_digit (show_digits n @ rest) = rest"
proof -
  have all: "list_all is_digit (show_digits n)" using show_digits_props [OF assms(1)] by simp
  then have a: "\<forall>x\<in>set (show_digits n). is_digit x" by (simp add: list_all_iff)
  show "takeWhile is_digit (show_digits n @ rest) = show_digits n"
    using a ends_value_facts(2) [OF assms(2)] by (simp add: takeWhile_append2)
  show "dropWhile is_digit (show_digits n @ rest) = rest"
    using a ends_value_facts(3) [OF assms(2)] by (simp add: dropWhile_append2)
qed

lemma scan_number_nonneg:
  assumes "0 \<le> n" and "ends_value rest"
  shows "scan_number (show_digits n @ rest) = Parsed (JInt n) rest"
proof -
  obtain d ds where sd: "show_digits n = d # ds"
    using show_digits_props [OF assms(1)] by (cases "show_digits n") auto
  have dig: "is_digit d" using show_digits_props [OF assms(1)] sd by simp
  then have nm: "d \<noteq> CHR ''-''" by (auto simp: is_digit_def)
  have val: "digits_value (d # ds) = n" using show_digits_props [OF assms(1)] sd by simp
  show ?thesis
  proof (cases "d = CHR ''0''")
    case True
    then have "n = 0" using show_digits_props [OF assms(1)] sd by simp
    then have "show_digits n = ''0''" by (simp add: show_digits_zero)
    then show ?thesis
      using \<open>n = 0\<close> ends_value_facts(1) [OF assms(2)]
      by (simp add: scan_number_def is_digit_def digits_value_def)
  next
    case False
    have tw: "takeWhile is_digit (d # ds @ rest) = d # ds"
      and dw: "dropWhile is_digit (d # ds @ rest) = rest"
      using scan_digits [OF assms] sd by simp_all
    show ?thesis
      using False dig nm val ends_value_facts(1) [OF assms(2)] tw dw
      by (simp add: scan_number_def sd Let_def del: takeWhile.simps dropWhile.simps)
  qed
qed

lemma scan_number_show_int:
  assumes "ends_value rest"
  shows "scan_number (show_int i @ rest) = Parsed (JInt i) rest"
proof (cases "i < 0")
  case False
  then show ?thesis using scan_number_nonneg [of i rest] assms by (simp add: show_int_def)
next
  case True
  then have p: "0 \<le> - i" by simp
  obtain d ds where sd: "show_digits (- i) = d # ds"
    using show_digits_props [OF p] by (cases "show_digits (- i)") auto
  have dig: "is_digit d" using show_digits_props [OF p] sd by simp
  have val: "digits_value (d # ds) = - i" using show_digits_props [OF p] sd by simp
  have nz: "d \<noteq> CHR ''0''" using show_digits_props [OF p] sd True by auto
  have tw: "takeWhile is_digit (d # ds @ rest) = d # ds"
    and dw: "dropWhile is_digit (d # ds @ rest) = rest"
    using scan_digits [OF p assms] sd by simp_all
  show ?thesis
    using True dig val nz ends_value_facts(1) [OF assms] tw dw
    by (simp add: scan_number_def show_int_def sd Let_def del: takeWhile.simps dropWhile.simps)
qed

text \<open>The text of a value starts with a character that is not white space, and what
  follows an element of a list or of an object ends the element.\<close>

lemma skip_ws_newline_indent [simp]: "skip_ws (newline_indent l @ s) = skip_ws s"
proof -
  have "dropWhile json_ws (replicate (2 * l) (CHR 0x20) @ s) = dropWhile json_ws s"
    by (rule dropWhile_append2) (simp add: json_ws_def)
  then show ?thesis
    by (simp add: skip_ws_def newline_indent_def json_ws_def)
qed

lemma skip_ws_space [simp]: "skip_ws (CHR 0x20 # s) = skip_ws s"
  by (simp add: skip_ws_def json_ws_def)

lemma skip_ws_nonws: "\<not> json_ws c \<Longrightarrow> skip_ws (c # s) = c # s"
  by (simp add: skip_ws_def)

lemma show_int_hd:
  "\<exists>c cs. show_int i = c # cs \<and> (is_digit c \<or> c = CHR ''-'')"
proof (cases "i < 0")
  case True
  then show ?thesis by (simp add: show_int_def)
next
  case False
  then have "0 \<le> i" by simp
  from show_digits_props [OF this] show ?thesis
    using False by (cases "show_digits i") (auto simp: show_int_def)
qed

lemma dumps_start: "\<exists>c cs. dumps l v = c # cs \<and> value_start c"
proof (cases v)
  case (JInt i)
  then show ?thesis using show_int_hd [of i] by (auto simp: value_start_def)
next
  case (JArray vs)
  then show ?thesis by (cases vs) (auto simp: value_start_def)
next
  case (JObject kvs)
  then show ?thesis by (cases kvs) (auto simp: value_start_def)
qed (auto simp: value_start_def encode_string_def)

lemma value_start_facts:
  assumes "value_start c"
  shows "\<not> json_ws c" and "c \<noteq> CHR '']''" and "c \<noteq> CHR ''}''" and "c \<noteq> CHR '',''"
  using assms by (auto simp: value_start_def json_ws_def is_digit_def dquote_def)

lemma skip_ws_dumps [simp]: "skip_ws (dumps l v @ s) = dumps l v @ s"
proof -
  obtain c cs where "dumps l v = c # cs" "value_start c" using dumps_start by blast
  then show ?thesis by (simp add: skip_ws_nonws value_start_facts)
qed

lemma dumps_nonempty: "0 < length (dumps l v)"
  using dumps_start [of l v] by auto

lemma ends_value_items: "ends_value (dumps_items l vs @ newline_indent l' @ s)"
  by (cases vs) (simp_all add: ends_value_def newline_indent_def)

lemma ends_value_members: "ends_value (dumps_members l kvs @ newline_indent l' @ s)"
  by (cases kvs) (auto simp: ends_value_def newline_indent_def)

lemma update_fresh: "k \<notin> fst ` set al \<Longrightarrow> AList.update k v al = al @ [(k, v)]"
  by (induction al) auto

text \<open>\<open>parse_value\<close>, one step, by the first character.\<close>


lemma parse_value_cons:
  "parse_value (Suc n) (c # cs) =
     (if c = dquote then
        (case scanstring [] cs of
           Parsed str r \<Rightarrow> Parsed (JString str) r
         | Malformed \<Rightarrow> Malformed
         | Unsupported \<Rightarrow> Unsupported
         | OutOfFuel \<Rightarrow> OutOfFuel)
      else if c = CHR ''{'' then
        (case skip_ws cs of
           [] \<Rightarrow> Malformed
         | d # r \<Rightarrow>
             if d = CHR ''}'' then Parsed (JObject []) r
             else if d = dquote then parse_object n [] r
             else Malformed)
      else if c = CHR ''['' then
        (case skip_ws cs of
           [] \<Rightarrow> Malformed
         | d # r \<Rightarrow>
             if d = CHR '']'' then Parsed (JArray []) r
             else parse_array n [] (d # r))
      else if take 4 (c # cs) = ''null'' then Parsed JNull (drop 4 (c # cs))
      else if take 4 (c # cs) = ''true'' then Parsed (JBool True) (drop 4 (c # cs))
      else if take 5 (c # cs) = ''false'' then Parsed (JBool False) (drop 5 (c # cs))
      else if take 3 (c # cs) = ''NaN'' \<or> take 8 (c # cs) = ''Infinity''
              \<or> take 9 (c # cs) = ''-Infinity''
        then Unsupported
      else scan_number (c # cs))"
  by (simp only: parse_value.simps list.case)

lemma parse_value_literals:
  "parse_value (Suc n) (''null'' @ rest) = Parsed JNull rest"
  "parse_value (Suc n) (''true'' @ rest) = Parsed (JBool True) rest"
  "parse_value (Suc n) (''false'' @ rest) = Parsed (JBool False) rest"
  by (simp_all add: parse_value_cons dquote_def)

lemma parse_value_string:
  "parse_value (Suc n) (encode_string str @ rest) = Parsed (JString str) rest"
  by (simp add: parse_value_cons encode_string_def scanstring_escaped)

lemma digit_not_letter:
  assumes "is_digit d"
  shows "d \<noteq> dquote" "d \<noteq> CHR ''{''" "d \<noteq> CHR ''[''" "d \<noteq> CHR ''n''" "d \<noteq> CHR ''t''"
    "d \<noteq> CHR ''f''" "d \<noteq> CHR ''N''" "d \<noteq> CHR ''I''" "d \<noteq> CHR ''-''"
  using assms by (auto simp: is_digit_def dquote_def)

lemma parse_value_digit:
  assumes "is_digit d"
  shows "parse_value (Suc n) (d # cs) = scan_number (d # cs)"
  using digit_not_letter [OF assms] by (simp add: parse_value_cons)

lemma parse_value_minus_digit:
  assumes "is_digit d"
  shows "parse_value (Suc n) (CHR ''-'' # d # cs) = scan_number (CHR ''-'' # d # cs)"
  using digit_not_letter [OF assms] by (simp add: parse_value_cons dquote_def)

lemma parse_value_int:
  assumes "ends_value rest"
  shows "parse_value (Suc n) (show_int i @ rest) = Parsed (JInt i) rest"
proof -
  have "parse_value (Suc n) (show_int i @ rest) = scan_number (show_int i @ rest)"
  proof (cases "i < 0")
    case True
    then have p: "0 \<le> - i" by simp
    obtain d ds where sd: "show_digits (- i) = d # ds" "is_digit d"
      using show_digits_props [OF p] by (cases "show_digits (- i)") auto
    show ?thesis
      using True sd parse_value_minus_digit [OF sd(2)] by (simp add: show_int_def)
  next
    case False
    then have p: "0 \<le> i" by simp
    obtain d ds where sd: "show_digits i = d # ds" "is_digit d"
      using show_digits_props [OF p] by (cases "show_digits i") auto
    show ?thesis
      using False sd parse_value_digit [OF sd(2)] by (simp add: show_int_def)
  qed
  then show ?thesis by (simp add: scan_number_show_int [OF assms])
qed

lemma parse_value_array:
  "parse_value (Suc n) (CHR ''['' # cs) =
     (case skip_ws cs of
        [] \<Rightarrow> Malformed
      | d # r \<Rightarrow> if d = CHR '']'' then Parsed (JArray []) r else parse_array n [] (d # r))"
  by (simp add: parse_value_cons dquote_def)

lemma parse_value_object:
  "parse_value (Suc n) (CHR ''{'' # cs) =
     (case skip_ws cs of
        [] \<Rightarrow> Malformed
      | d # r \<Rightarrow>
          if d = CHR ''}'' then Parsed (JObject []) r
          else if d = dquote then parse_object n [] r
          else Malformed)"
  by (simp add: parse_value_cons dquote_def)

lemma parse_array_first:
  assumes "length (dumps l v) + length (dumps_items l vs) + 2 < n"
    and "\<And>m rest'. ends_value rest' \<Longrightarrow> length (dumps l v) < m
           \<Longrightarrow> parse_value m (dumps l v @ rest') = Parsed v rest'"
    and "\<And>m s. length (dumps_items l vs) + 1 < m
           \<Longrightarrow> parse_value m s = Parsed v (dumps_items l vs @ newline_indent l' @ CHR '']'' # rest)
           \<Longrightarrow> parse_array (Suc m) acc s = Parsed (JArray (rev acc @ v # vs)) rest"
  shows "parse_array n acc (dumps l v @ dumps_items l vs @ newline_indent l' @ CHR '']'' # rest)
           = Parsed (JArray (rev acc @ v # vs)) rest"
proof -
  obtain m where n: "n = Suc m" using assms(1) by (cases n) auto
  let ?rest = "dumps_items l vs @ newline_indent l' @ CHR '']'' # rest"
  have "parse_value m (dumps l v @ ?rest) = Parsed v ?rest"
    using assms(1) n by (intro assms(2) ends_value_items) simp
  then show ?thesis
    unfolding n using assms(1) n by (intro assms(3)) simp_all
qed

lemma parse_object_first:
  assumes "length (dumps l v) + length (dumps_members l kvs) + 2 < n"
    and "\<And>m rest'. ends_value rest' \<Longrightarrow> length (dumps l v) < m
           \<Longrightarrow> parse_value m (dumps l v @ rest') = Parsed v rest'"
    and "\<And>m s r1. length (dumps_members l kvs) + 1 < m
           \<Longrightarrow> scanstring [] s = Parsed k (CHR '':'' # r1)
           \<Longrightarrow> parse_value m (skip_ws r1)
                 = Parsed v (dumps_members l kvs @ newline_indent l' @ CHR ''}'' # rest)
           \<Longrightarrow> parse_object (Suc m) acc s = Parsed (JObject (acc @ (k, v) # kvs)) rest"
  shows "parse_object n acc
           (concat (map escape_char k) @ dquote # '': '' @ dumps l v @ dumps_members l kvs
              @ newline_indent l' @ CHR ''}'' # rest)
           = Parsed (JObject (acc @ (k, v) # kvs)) rest"
proof -
  obtain m where n: "n = Suc m" using assms(1) by (cases n) auto
  let ?rest = "dumps_members l kvs @ newline_indent l' @ CHR ''}'' # rest"
  let ?r1 = "CHR 0x20 # dumps l v @ ?rest"
  have v: "parse_value m (dumps l v @ ?rest) = Parsed v ?rest"
    using assms(1) n by (intro assms(2) ends_value_members) simp
  have s: "scanstring [] (concat (map escape_char k) @ dquote # CHR '':'' # ?r1)
      = Parsed k (CHR '':'' # ?r1)"
    using scanstring_escaped [of "[]" k "CHR '':'' # ?r1"] by simp
  have "parse_object (Suc m) acc (concat (map escape_char k) @ dquote # CHR '':'' # ?r1)
      = Parsed (JObject (acc @ (k, v) # kvs)) rest"
    using assms(1) n s v by (intro assms(3) [where ?r1.0 = ?r1]) simp_all
  then show ?thesis unfolding n by simp
qed

text \<open>
  The scanner reads back what \<open>dumps\<close> wrote, at every level of indentation and with
  any fuel above the length of the text: by induction along \<open>dumps\<close>, for a value, for
  the elements of a list after the first and for the members of an object after the
  first.
\<close>

lemma roundtrip_value:
    "distinct_keys v \<Longrightarrow> ends_value rest \<Longrightarrow> length (dumps lvl v) < n
      \<Longrightarrow> parse_value n (dumps lvl v @ rest) = Parsed v rest"
  and roundtrip_items:
    "distinct_keys_list vs \<Longrightarrow> length (dumps_items lvl vs) + 1 < n
      \<Longrightarrow> parse_value n s = Parsed v0 (dumps_items lvl vs @ newline_indent l' @ CHR '']'' # rest)
      \<Longrightarrow> parse_array (Suc n) acc s = Parsed (JArray (rev acc @ v0 # vs)) rest"
  and roundtrip_members:
    "distinct_keys_members kvs \<Longrightarrow> distinct (map fst acc' @ key # map fst kvs)
      \<Longrightarrow> length (dumps_members lvl kvs) + 1 < n
      \<Longrightarrow> scanstring [] s = Parsed key (CHR '':'' # r1)
      \<Longrightarrow> parse_value n (skip_ws r1)
            = Parsed v0 (dumps_members lvl kvs @ newline_indent l' @ CHR ''}'' # rest)
      \<Longrightarrow> parse_object (Suc n) acc' s = Parsed (JObject (acc' @ (key, v0) # kvs)) rest"
proof (induction lvl v and lvl vs and lvl kvs
    arbitrary: n rest and n s v0 l' rest acc and n s v0 l' rest acc' key r1
    rule: dumps_dumps_items_dumps_members.induct)
  case (1 lvl)
  then obtain m where "n = Suc m" by (cases n) auto
  then show ?case using parse_value_literals(1) by simp
next
  case (2 lvl b)
  then obtain m where "n = Suc m" by (cases n) auto
  then show ?case using parse_value_literals(2,3) by (cases b) simp_all
next
  case (3 lvl i)
  then obtain m where "n = Suc m" by (cases n) auto
  then show ?case using parse_value_int [OF 3(2)] by simp
next
  case (4 lvl str)
  then obtain m where "n = Suc m" by (cases n) auto
  then show ?case using parse_value_string by simp
next
  case (5 lvl)
  then obtain m where "n = Suc m" by (cases n) auto
  then show ?case by (simp add: parse_value_array skip_ws_nonws json_ws_def)
next
  case (6 lvl v vs)
  from 6(5) obtain m where n: "n = Suc m" by (cases n) auto
  obtain c cs where d: "dumps (Suc lvl) v = c # cs" "value_start c"
    using dumps_start by blast
  have notclose: "c \<noteq> CHR '']''" using d(2) by (rule value_start_facts)
  let ?s = "dumps (Suc lvl) v @ dumps_items (Suc lvl) vs @ newline_indent lvl @ CHR '']'' # rest"
  have sk: "skip_ws (newline_indent (Suc lvl) @ ?s) = ?s" by simp
  have first: "parse_value (Suc m) (CHR ''['' # newline_indent (Suc lvl) @ ?s) = parse_array m [] ?s"
    unfolding parse_value_array sk using d notclose by simp
  have "parse_array m [] ?s = Parsed (JArray (rev [] @ v # vs)) rest"
  proof (rule parse_array_first)
    show "length (dumps (Suc lvl) v) + length (dumps_items (Suc lvl) vs) + 2 < m"
      using 6(5) n by (simp add: newline_indent_def)
    show "parse_value k (dumps (Suc lvl) v @ rest') = Parsed v rest'"
      if "ends_value rest'" "length (dumps (Suc lvl) v) < k" for k rest'
      using 6(1) [OF _ that] 6(3) by simp
    show "parse_array (Suc k) [] s = Parsed (JArray (rev [] @ v # vs)) rest"
      if "length (dumps_items (Suc lvl) vs) + 1 < k"
        "parse_value k s = Parsed v (dumps_items (Suc lvl) vs @ newline_indent lvl @ CHR '']'' # rest)"
      for k s
      using 6(2) [OF _ that] 6(3) by simp
  qed
  with first show ?case unfolding n by simp
next
  case (7 lvl)
  then obtain m where "n = Suc m" by (cases n) auto
  then show ?case by (simp add: parse_value_object skip_ws_nonws json_ws_def)
next
  case (8 lvl k v kvs)
  from 8(5) obtain m where n: "n = Suc m" by (cases n) auto
  let ?s = "concat (map escape_char k) @ dquote # '': '' @ dumps (Suc lvl) v
      @ dumps_members (Suc lvl) kvs @ newline_indent lvl @ CHR ''}'' # rest"
  have sk: "skip_ws (newline_indent (Suc lvl) @ dquote # ?s) = dquote # ?s"
    by (simp add: skip_ws_nonws json_ws_def dquote_def)
  have first: "parse_value (Suc m) (CHR ''{'' # newline_indent (Suc lvl) @ dquote # ?s)
      = parse_object m [] ?s"
    unfolding parse_value_object sk by (simp add: dquote_def)
  have "parse_object m [] ?s = Parsed (JObject ([] @ (k, v) # kvs)) rest"
  proof (rule parse_object_first)
    show "length (dumps (Suc lvl) v) + length (dumps_members (Suc lvl) kvs) + 2 < m"
      using 8(5) n by (simp add: newline_indent_def encode_string_def)
    show "parse_value j (dumps (Suc lvl) v @ rest') = Parsed v rest'"
      if "ends_value rest'" "length (dumps (Suc lvl) v) < j" for j rest'
      using 8(1) [OF _ that] 8(3) by simp
    show "parse_object (Suc j) [] s = Parsed (JObject ([] @ (k, v) # kvs)) rest"
      if "length (dumps_members (Suc lvl) kvs) + 1 < j"
        "scanstring [] s = Parsed k (CHR '':'' # r1)"
        "parse_value j (skip_ws r1)
           = Parsed v (dumps_members (Suc lvl) kvs @ newline_indent lvl @ CHR ''}'' # rest)"
      for j s r1
      using 8(2) [OF _ _ that, of "[]"] 8(3) by simp
  qed
  with first show ?case unfolding n by (simp add: encode_string_def)
next
  case (9 lvl)
  then show ?case by (simp add: parse_array.simps skip_ws_nonws json_ws_def)
next
  case (10 lvl v vs)
  let ?s = "dumps lvl v @ dumps_items lvl vs @ newline_indent l' @ CHR '']'' # rest"
  have "parse_array (Suc n) acc s = parse_array n (v0 # acc) ?s"
    using 10(5) by (simp add: parse_array.simps skip_ws_nonws json_ws_def)
  also have "\<dots> = Parsed (JArray (rev (v0 # acc) @ v # vs)) rest"
  proof (rule parse_array_first)
    show "length (dumps lvl v) + length (dumps_items lvl vs) + 2 < n"
      using 10(4) by (simp add: newline_indent_def)
    show "parse_value k (dumps lvl v @ rest') = Parsed v rest'"
      if "ends_value rest'" "length (dumps lvl v) < k" for k rest'
      using 10(1) [OF _ that] 10(3) by simp
    show "parse_array (Suc k) (v0 # acc) s = Parsed (JArray (rev (v0 # acc) @ v # vs)) rest"
      if "length (dumps_items lvl vs) + 1 < k"
        "parse_value k s = Parsed v (dumps_items lvl vs @ newline_indent l' @ CHR '']'' # rest)"
      for k s
      using 10(2) [OF _ that] 10(3) by simp
  qed
  finally show ?case by simp
next
  case (11 lvl)
  then have "AList.update key v0 acc' = acc' @ [(key, v0)]"
    by (intro update_fresh) auto
  with 11 show ?case by (simp add: parse_object.simps skip_ws_nonws json_ws_def)
next
  case (12 lvl k v kvs)
  have upd: "AList.update key v0 acc' = acc' @ [(key, v0)]"
    using 12(4) by (intro update_fresh) auto
  let ?s = "concat (map escape_char k) @ dquote # '': '' @ dumps lvl v
      @ dumps_members lvl kvs @ newline_indent l' @ CHR ''}'' # rest"
  have "parse_object (Suc n) acc' s = parse_object n (acc' @ [(key, v0)]) ?s"
    using 12(6,7) upd
    by (simp add: parse_object.simps skip_ws_nonws json_ws_def encode_string_def dquote_def)
  also have "\<dots> = Parsed (JObject ((acc' @ [(key, v0)]) @ (k, v) # kvs)) rest"
  proof (rule parse_object_first)
    show "length (dumps lvl v) + length (dumps_members lvl kvs) + 2 < n"
      using 12(5) by (simp add: newline_indent_def encode_string_def)
    show "parse_value j (dumps lvl v @ rest') = Parsed v rest'"
      if "ends_value rest'" "length (dumps lvl v) < j" for j rest'
      using 12(1) [OF _ that] 12(3) by simp
    show "parse_object (Suc j) (acc' @ [(key, v0)]) s
        = Parsed (JObject ((acc' @ [(key, v0)]) @ (k, v) # kvs)) rest"
      if "length (dumps_members lvl kvs) + 1 < j"
        "scanstring [] s = Parsed k (CHR '':'' # r1)"
        "parse_value j (skip_ws r1)
           = Parsed v (dumps_members lvl kvs @ newline_indent l' @ CHR ''}'' # rest)"
      for j s r1
    proof (rule 12(2) [OF _ _ that])
      show "distinct_keys_members kvs" using 12(3) by simp
      show "distinct (map fst (acc' @ [(key, v0)]) @ k # map fst kvs)"
        using 12(4) by simp
    qed
  qed
  finally show ?case by simp
qed

theorem json_roundtrip:
  assumes "distinct_keys v"
  shows "json_loads (json_dumps v) = Inr v"
proof -
  have "parse_value (2 * length (dumps 0 v) + 2) (dumps 0 v @ []) = Parsed v []"
    by (rule roundtrip_value [OF assms]) (simp_all add: ends_value_def)
  moreover have "skip_ws (dumps 0 v) = dumps 0 v"
    using skip_ws_dumps [of 0 v "[]"] by simp
  ultimately show ?thesis
    by (simp add: json_loads_def json_dumps_def skip_ws_def)
qed

text \<open>What the scanner returns has no key twice.\<close>

lemma distinct_keys_list_all: "distinct_keys_list vs = list_all distinct_keys vs"
  by (induction vs) simp_all

lemma distinct_keys_members_update:
  "distinct_keys v \<Longrightarrow> distinct_keys_members al \<Longrightarrow> distinct_keys_members (AList.update k v al)"
  by (induction al) auto

lemma scan_number_distinct_keys: "scan_number s = Parsed v r \<Longrightarrow> distinct_keys v"
  by (auto simp: scan_number_def Let_def split: list.splits if_splits)

lemma parse_value_distinct_keys_step:
  assumes arr: "\<And>acc s v r. parse_array n acc s = Parsed v r \<Longrightarrow> distinct_keys_list acc
                  \<Longrightarrow> distinct_keys v"
    and obj: "\<And>acc s v r. parse_object n acc s = Parsed v r \<Longrightarrow> distinct (map fst acc)
                  \<Longrightarrow> distinct_keys_members acc \<Longrightarrow> distinct_keys v"
    and p: "parse_value (Suc n) s = Parsed v r"
  shows "distinct_keys v"
proof (cases s)
  case Nil
  with p show ?thesis by (simp add: parse_value.simps)
next
  case (Cons c cs)
  consider (str) "c = dquote" | (ob) "c \<noteq> dquote" "c = CHR ''{''"
    | (ar) "c \<noteq> dquote" "c \<noteq> CHR ''{''" "c = CHR ''[''"
    | (other) "c \<noteq> dquote" "c \<noteq> CHR ''{''" "c \<noteq> CHR ''[''"
    by blast
  then show ?thesis
  proof cases
    case str
    with p Cons show ?thesis
      by (auto simp: parse_value_cons split: scan.splits)
  next
    case ob
    with p Cons obj [of "[]"] show ?thesis
      by (auto simp: parse_value_cons split: list.splits if_splits)
  next
    case ar
    with p Cons arr [of "[]"] show ?thesis
      by (auto simp: parse_value_cons split: list.splits if_splits)
  next
    case other
    with p Cons scan_number_distinct_keys [of s v r] show ?thesis
      by (auto simp: parse_value_cons split: if_splits)
  qed
qed

lemma parse_array_distinct_keys_step:
  assumes val: "\<And>s v r. parse_value n s = Parsed v r \<Longrightarrow> distinct_keys v"
    and arr: "\<And>acc s v r. parse_array n acc s = Parsed v r \<Longrightarrow> distinct_keys_list acc
                  \<Longrightarrow> distinct_keys v"
    and p: "parse_array (Suc n) acc s = Parsed v r" and acc: "distinct_keys_list acc"
  shows "distinct_keys v"
proof (cases "parse_value n s")
  case (Parsed x r0)
  then have x: "distinct_keys x" by (rule val)
  show ?thesis
  proof (cases "skip_ws r0")
    case Nil
    with p Parsed show ?thesis by (simp add: parse_array.simps)
  next
    case (Cons d r')
    show ?thesis
    proof (cases "d = CHR '']''")
      case True
      with p Parsed Cons have "v = JArray (rev (x # acc))" by (simp add: parse_array.simps)
      with x acc show ?thesis by (simp add: distinct_keys_list_all)
    next
      case False
      with p Parsed Cons have "d = CHR '',''" and "parse_array n (x # acc) (skip_ws r') = Parsed v r"
        by (auto simp: parse_array.simps split: if_splits)
      then show ?thesis using arr [of "x # acc"] x acc by simp
    qed
  qed
qed (use p in \<open>simp_all add: parse_array.simps\<close>)

lemma parse_object_distinct_keys_step:
  assumes val: "\<And>s v r. parse_value n s = Parsed v r \<Longrightarrow> distinct_keys v"
    and obj: "\<And>acc s v r. parse_object n acc s = Parsed v r \<Longrightarrow> distinct (map fst acc)
                  \<Longrightarrow> distinct_keys_members acc \<Longrightarrow> distinct_keys v"
    and p: "parse_object (Suc n) acc s = Parsed v r"
    and acc: "distinct (map fst acc)" "distinct_keys_members acc"
  shows "distinct_keys v"
proof -
  from p obtain key r0 c r1 x r2 d r3 where
    k: "scanstring [] s = Parsed key r0" and "skip_ws r0 = c # r1"
    and pv: "parse_value n (skip_ws r1) = Parsed x r2" and sk: "skip_ws r2 = d # r3"
    by (auto simp: parse_object.simps split: scan.splits list.splits if_splits)
  have x: "distinct_keys x" using pv by (rule val)
  let ?acc = "AList.update key x acc"
  have a: "distinct (map fst ?acc)" "distinct_keys_members ?acc"
    using acc x by (simp_all add: distinct_update distinct_keys_members_update)
  from p k \<open>skip_ws r0 = c # r1\<close> pv sk
  have "v = JObject ?acc \<or> (\<exists>r4. parse_object n ?acc r4 = Parsed v r)"
    by (auto simp: parse_object.simps split: list.splits if_splits)
  then show ?thesis
    using a obj [of ?acc] by auto
qed

lemma parse_distinct_keys:
  "(\<forall>s v r. parse_value n s = Parsed v r \<longrightarrow> distinct_keys v)
   \<and> (\<forall>acc s v r. parse_array n acc s = Parsed v r \<longrightarrow> distinct_keys_list acc \<longrightarrow> distinct_keys v)
   \<and> (\<forall>acc s v r. parse_object n acc s = Parsed v r \<longrightarrow> distinct (map fst acc)
         \<longrightarrow> distinct_keys_members acc \<longrightarrow> distinct_keys v)"
proof (induction n)
  case 0
  show ?case by (simp add: parse_value.simps parse_array.simps parse_object.simps)
next
  case (Suc n)
  then have val: "\<And>s v r. parse_value n s = Parsed v r \<Longrightarrow> distinct_keys v"
    and arr: "\<And>acc s v r. parse_array n acc s = Parsed v r \<Longrightarrow> distinct_keys_list acc
                  \<Longrightarrow> distinct_keys v"
    and obj: "\<And>acc s v r. parse_object n acc s = Parsed v r \<Longrightarrow> distinct (map fst acc)
                  \<Longrightarrow> distinct_keys_members acc \<Longrightarrow> distinct_keys v"
    by blast+
  show ?case
  proof (intro conjI allI impI)
    fix s v r
    assume "parse_value (Suc n) s = Parsed v r"
    with arr obj show "distinct_keys v"
      by (rule parse_value_distinct_keys_step [where n = n])
  next
    fix acc s v r
    assume "parse_array (Suc n) acc s = Parsed v r" and "distinct_keys_list acc"
    with val arr show "distinct_keys v"
      by (rule parse_array_distinct_keys_step [where n = n])
  next
    fix acc s v r
    assume "parse_object (Suc n) acc s = Parsed v r" and "distinct (map fst acc)"
      and "distinct_keys_members acc"
    with val obj show "distinct_keys v"
      by (rule parse_object_distinct_keys_step [where n = n])
  qed
qed

lemma json_loads_distinct_keys:
  assumes "json_loads s = Inr v"
  shows "distinct_keys v"
proof -
  from assms obtain r where "parse_value (2 * length s + 2) (skip_ws s) = Parsed v r"
    by (auto simp: json_loads_def split: scan.splits if_splits)
  then show ?thesis using parse_distinct_keys by blast
qed

theorem json_loads_dumps:
  assumes "json_loads s = Inr v"
  shows "json_loads (json_dumps v) = Inr v"
  using json_roundtrip [OF json_loads_distinct_keys [OF assms]] .

subsection \<open>The scanner's fuel\<close>

text \<open>
  The scanner is written with fuel, and \<open>json_loads\<close> gives it twice the length of the text
  and two. That is always enough: a value that is read takes at least one character of the
  text, so the loops of \<open>parse_array\<close> and \<open>parse_object\<close> and the nesting of values end
  before the fuel does. So \<open>json_loads\<close> answers \<open>Unmodelled\<close> only for a text with a
  float, a constant that is a float, or an escape above \<open>0xFF\<close>.
\<close>

lemma skip_ws_length: "length (skip_ws s) \<le> length s"
  by (simp add: skip_ws_def length_dropWhile_le)

lemma skip_ws_cons_length: "skip_ws s = d # r \<Longrightarrow> length r < length s"
  using skip_ws_length [of s] by simp

lemma scanstring_cases:
  "(c = dquote \<and> scanstring acc (c # cs) = Parsed (rev acc) cs)
       \<or> (\<exists>acc' r. length r \<le> length cs \<and> scanstring acc (c # cs) = scanstring acc' r)
       \<or> scanstring acc (c # cs) = Malformed \<or> scanstring acc (c # cs) = Unsupported"
proof (cases "c = dquote")
  case True
  then show ?thesis by simp
next
  case nq: False
  show ?thesis
  proof (cases "c = backslash")
    case False
    with nq have "scanstring acc (c # cs) = Malformed \<or> scanstring acc (c # cs) = scanstring (c # acc) cs"
      by simp
    then show ?thesis by (metis order_refl)
  next
    case True
    show ?thesis
    proof (cases cs)
      case Nil
      with nq True show ?thesis by simp
    next
      case (Cons e r)
      show ?thesis
      proof (cases "e = CHR ''u''")
        case False
        have "scanstring acc (c # cs) = Malformed
            \<or> (\<exists>ch. scanstring acc (c # cs) = scanstring (ch # acc) r)"
        proof (cases "unescape e")
          case None
          with nq True Cons False show ?thesis by simp
        next
          case (Some ch)
          with nq True Cons False have "scanstring acc (c # cs) = scanstring (ch # acc) r"
            by simp
          then show ?thesis by blast
        qed
        moreover have "length r \<le> length cs" using Cons by simp
        ultimately show ?thesis by blast
      next
        case u: True
        have "scanstring acc (c # cs) = Malformed \<or> scanstring acc (c # cs) = Unsupported
            \<or> (\<exists>n r'. length r' \<le> length r \<and> scanstring acc (c # cs) = scanstring (char_of (n::nat) # acc) r')"
        proof (cases "\<exists>h1 h2 h3 h4 r'. r = h1 # h2 # h3 # h4 # r'")
          case False
          with nq True Cons u have "scanstring acc (c # cs) = Malformed"
            by (simp split: list.splits)
          then show ?thesis by simp
        next
          case hx: True
          then obtain h1 h2 h3 h4 r' where r: "r = h1 # h2 # h3 # h4 # r'" by blast
          show ?thesis
          proof (cases "hex4 h1 h2 h3 h4")
            case None
            with nq True Cons u r show ?thesis by simp
          next
            case (Some n)
            show ?thesis
            proof (cases "n < 256")
              case False
              with nq True Cons u r Some show ?thesis by simp
            next
              case lt: True
              with nq True Cons u r Some
              have "scanstring acc (c # cs) = scanstring (char_of n # acc) r'" by simp
              moreover have "length r' \<le> length r" using r by simp
              ultimately show ?thesis by blast
            qed
          qed
        qed
        moreover have "length r \<le> length cs" using Cons by simp
        ultimately show ?thesis by (meson order_trans)
      qed
    qed
  qed
qed

lemma scanstring_shorter: "scanstring acc s = Parsed str r \<Longrightarrow> length r < length s"
proof (induction s arbitrary: acc rule: length_induct)
  case (1 s)
  show ?case
  proof (cases s)
    case Nil
    with 1(2) show ?thesis by simp
  next
    case (Cons c cs)
    from scanstring_cases [of c acc cs] 1(2) Cons
    consider "r = cs" | acc' r0 where "length r0 \<le> length cs" "scanstring acc' r0 = Parsed str r"
      by (metis scan.distinct(1) scan.distinct(3) scan.inject)
    then show ?thesis
    proof cases
      case 1
      then show ?thesis using Cons by simp
    next
      case 2
      from 2(1) Cons have "length r0 < length s" by simp
      with 1(1) 2(2) have "length r < length r0" by blast
      with 2 Cons show ?thesis by simp
    qed
  qed
qed

lemma scanstring_fuel: "scanstring acc s \<noteq> OutOfFuel"
proof (induction s arbitrary: acc rule: length_induct)
  case (1 s)
  show ?case
  proof (cases s)
    case Nil
    then show ?thesis by simp
  next
    case (Cons c cs)
    from scanstring_cases [of c acc cs]
    consider "scanstring acc (c # cs) = Parsed (rev acc) cs"
      | acc' r0 where "length r0 \<le> length cs" "scanstring acc (c # cs) = scanstring acc' r0"
      | "scanstring acc (c # cs) = Malformed" | "scanstring acc (c # cs) = Unsupported"
      by blast
    then show ?thesis
    proof cases
      case 2
      from 2(1) Cons have "length r0 < length s" by simp
      with 1 have "scanstring acc' r0 \<noteq> OutOfFuel" by blast
      with 2 Cons show ?thesis by simp
    qed (simp_all add: Cons)
  qed
qed

lemma dropWhile_length_cons: "P d \<Longrightarrow> length (dropWhile P (d # r)) \<le> length r"
  by (simp add: length_dropWhile_le)

lemma scan_number_shorter:
  assumes p: "scan_number s = Parsed v r"
  shows "length r < length s"
proof (cases s)
  case Nil
  with p show ?thesis by (simp add: scan_number_def)
next
  case (Cons c cs)
  show ?thesis
  proof (cases "c = CHR ''-''")
    case True
    show ?thesis
    proof (cases cs)
      case Nil
      with p Cons True show ?thesis by (simp add: scan_number_def)
    next
      case c2: (Cons d r0)
      show ?thesis
      proof (cases "is_digit d")
        case False
        with p Cons True c2 show ?thesis by (simp add: scan_number_def)
      next
        case dg: True
        have "length (dropWhile is_digit (d # r0)) \<le> length r0"
          using dg by (rule dropWhile_length_cons)
        moreover from p Cons True c2 dg have "r = r0 \<or> r = dropWhile is_digit (d # r0)"
          by (simp add: scan_number_def Let_def split: if_splits)
        ultimately show ?thesis using Cons c2 by auto
      qed
    qed
  next
    case False
    show ?thesis
    proof (cases "is_digit c")
      case nd: False
      with p Cons False show ?thesis by (simp add: scan_number_def)
    next
      case dg: True
      have "length (dropWhile is_digit (c # cs)) \<le> length cs"
        using dg by (rule dropWhile_length_cons)
      moreover from p Cons False dg have "r = cs \<or> r = dropWhile is_digit (c # cs)"
        by (simp add: scan_number_def Let_def split: if_splits)
      ultimately show ?thesis using Cons by auto
    qed
  qed
qed

lemma scan_number_fuel: "scan_number s \<noteq> OutOfFuel"
  by (simp add: scan_number_def Let_def split: list.splits)

lemma parse_value_shorter_step:
  assumes arr: "\<And>acc s v r. parse_array n acc s = Parsed v r \<Longrightarrow> length r < length s"
    and obj: "\<And>acc s v r. parse_object n acc s = Parsed v r \<Longrightarrow> length r < length s"
    and p: "parse_value (Suc n) s = Parsed v r"
  shows "length r < length s"
proof (cases s)
  case Nil
  with p show ?thesis by (simp add: parse_value.simps)
next
  case (Cons c cs)
  consider (str) "c = dquote" | (ob) "c \<noteq> dquote" "c = CHR ''{''"
    | (ar) "c \<noteq> dquote" "c \<noteq> CHR ''{''" "c = CHR ''[''"
    | (other) "c \<noteq> dquote" "c \<noteq> CHR ''{''" "c \<noteq> CHR ''[''"
    by blast
  then show ?thesis
  proof cases
    case str
    with p Cons obtain str where "scanstring [] cs = Parsed str r"
      by (auto simp: parse_value_cons split: scan.splits)
    then have "length r < length cs" by (rule scanstring_shorter)
    with Cons show ?thesis by simp
  next
    case ob
    show ?thesis
    proof (cases "skip_ws cs")
      case Nil
      with p Cons ob show ?thesis by (simp add: parse_value_cons)
    next
      case sk: (Cons d r0)
      then have l: "length r0 < length cs" by (rule skip_ws_cons_length)
      from p Cons ob sk have "r = r0 \<or> parse_object n [] r0 = Parsed v r"
        by (simp add: parse_value_cons split: if_splits)
      then show ?thesis using l obj [of "[]" r0 v r] Cons by auto
    qed
  next
    case ar
    show ?thesis
    proof (cases "skip_ws cs")
      case Nil
      with p Cons ar show ?thesis by (simp add: parse_value_cons)
    next
      case sk: (Cons d r0)
      then have l: "length r0 < length cs" by (rule skip_ws_cons_length)
      from p Cons ar sk have "r = r0 \<or> parse_array n [] (d # r0) = Parsed v r"
        by (simp add: parse_value_cons split: if_splits)
      then show ?thesis using l arr [of "[]" "d # r0" v r] Cons by auto
    qed
  next
    case other
    with p Cons have "(r = drop 4 s \<and> take 4 s = ''null'') \<or> (r = drop 4 s \<and> take 4 s = ''true'')
        \<or> (r = drop 5 s \<and> take 5 s = ''false'') \<or> scan_number s = Parsed v r"
      by (simp add: parse_value_cons split: if_splits)
    then show ?thesis using scan_number_shorter [of s v r] Cons by auto
  qed
qed

lemma parse_array_shorter_step:
  assumes val: "\<And>s v r. parse_value n s = Parsed v r \<Longrightarrow> length r < length s"
    and arr: "\<And>acc s v r. parse_array n acc s = Parsed v r \<Longrightarrow> length r < length s"
    and p: "parse_array (Suc n) acc s = Parsed v r"
  shows "length r < length s"
proof (cases "parse_value n s")
  case (Parsed x r0)
  then have l0: "length r0 < length s" by (rule val)
  show ?thesis
  proof (cases "skip_ws r0")
    case Nil
    with p Parsed show ?thesis by (simp add: parse_array.simps)
  next
    case (Cons d r')
    then have l1: "length r' < length r0" by (rule skip_ws_cons_length)
    from p Parsed Cons have "r = r' \<or> parse_array n (x # acc) (skip_ws r') = Parsed v r"
      by (simp add: parse_array.simps split: if_splits)
    then show ?thesis
      using l0 l1 arr [of "x # acc" "skip_ws r'" v r] skip_ws_length [of r'] by auto
  qed
qed (use p in \<open>simp_all add: parse_array.simps\<close>)

lemma parse_object_shorter_step:
  assumes val: "\<And>s v r. parse_value n s = Parsed v r \<Longrightarrow> length r < length s"
    and obj: "\<And>acc s v r. parse_object n acc s = Parsed v r \<Longrightarrow> length r < length s"
    and p: "parse_object (Suc n) acc s = Parsed v r"
  shows "length r < length s"
proof -
  from p obtain key r0 c r1 x r2 d r3 where
    k: "scanstring [] s = Parsed key r0" and s0: "skip_ws r0 = c # r1"
    and pv: "parse_value n (skip_ws r1) = Parsed x r2" and sk: "skip_ws r2 = d # r3"
    by (auto simp: parse_object.simps split: scan.splits list.splits if_splits)
  have l0: "length r0 < length s" using k by (rule scanstring_shorter)
  have l1: "length r1 < length r0" using s0 by (rule skip_ws_cons_length)
  have l2: "length r2 < length (skip_ws r1)" using pv by (rule val)
  have l3: "length r3 < length r2" using sk by (rule skip_ws_cons_length)
  have l: "length r3 < length s" using l0 l1 l2 l3 skip_ws_length [of r1] by simp
  let ?acc = "AList.update key x acc"
  from p k s0 pv sk
  have "r = r3 \<or> (\<exists>q r4. skip_ws r3 = q # r4 \<and> parse_object n ?acc r4 = Parsed v r)"
    by (auto simp: parse_object.simps split: list.splits if_splits)
  then show ?thesis
  proof
    assume "r = r3"
    with l show ?thesis by simp
  next
    assume "\<exists>q r4. skip_ws r3 = q # r4 \<and> parse_object n ?acc r4 = Parsed v r"
    then obtain q r4 where s3: "skip_ws r3 = q # r4" and po: "parse_object n ?acc r4 = Parsed v r"
      by blast
    have "length r4 < length r3" using s3 by (rule skip_ws_cons_length)
    moreover have "length r < length r4" using po by (rule obj)
    ultimately show ?thesis using l by simp
  qed
qed

lemma parse_shorter:
  "(\<forall>s v r. parse_value n s = Parsed v r \<longrightarrow> length r < length s)
   \<and> (\<forall>acc s v r. parse_array n acc s = Parsed v r \<longrightarrow> length r < length s)
   \<and> (\<forall>acc s v r. parse_object n acc s = Parsed v r \<longrightarrow> length r < length s)"
proof (induction n)
  case 0
  show ?case by (simp add: parse_value.simps parse_array.simps parse_object.simps)
next
  case (Suc n)
  then have val: "\<And>s v r. parse_value n s = Parsed v r \<Longrightarrow> length r < length s"
    and arr: "\<And>acc s v r. parse_array n acc s = Parsed v r \<Longrightarrow> length r < length s"
    and obj: "\<And>acc s v r. parse_object n acc s = Parsed v r \<Longrightarrow> length r < length s"
    by blast+
  show ?case
  proof (intro conjI allI impI)
    fix s v r
    assume "parse_value (Suc n) s = Parsed v r"
    with arr obj show "length r < length s"
      by (rule parse_value_shorter_step [where n = n])
  next
    fix acc s v r
    assume "parse_array (Suc n) acc s = Parsed v r"
    with val arr show "length r < length s"
      by (rule parse_array_shorter_step [where n = n])
  next
    fix acc s v r
    assume "parse_object (Suc n) acc s = Parsed v r"
    with val obj show "length r < length s"
      by (rule parse_object_shorter_step [where n = n])
  qed
qed

lemma parse_value_shorter: "parse_value n s = Parsed v r \<Longrightarrow> length r < length s"
  using parse_shorter by blast

lemma parse_value_fuel_step:
  assumes arr: "\<And>acc s. 2 * length s + 2 \<le> n \<Longrightarrow> parse_array n acc s \<noteq> OutOfFuel"
    and obj: "\<And>acc s. 2 * length s + 1 \<le> n \<Longrightarrow> parse_object n acc s \<noteq> OutOfFuel"
    and n: "2 * length s + 1 \<le> Suc n"
  shows "parse_value (Suc n) s \<noteq> OutOfFuel"
proof (cases s)
  case Nil
  then show ?thesis by (simp add: parse_value.simps)
next
  case (Cons c cs)
  consider (str) "c = dquote" | (ob) "c \<noteq> dquote" "c = CHR ''{''"
    | (ar) "c \<noteq> dquote" "c \<noteq> CHR ''{''" "c = CHR ''[''"
    | (other) "c \<noteq> dquote" "c \<noteq> CHR ''{''" "c \<noteq> CHR ''[''"
    by blast
  then show ?thesis
  proof cases
    case str
    with Cons scanstring_fuel [of "[]" cs] show ?thesis
      by (simp add: parse_value_cons split: scan.splits)
  next
    case ob
    show ?thesis
    proof (cases "skip_ws cs")
      case Nil
      with Cons ob show ?thesis by (simp add: parse_value_cons)
    next
      case sk: (Cons d r0)
      then have "length r0 < length cs" by (rule skip_ws_cons_length)
      with n Cons have "2 * length r0 + 1 \<le> n" by simp
      then have "parse_object n [] r0 \<noteq> OutOfFuel" by (rule obj)
      with Cons ob sk show ?thesis by (simp add: parse_value_cons)
    qed
  next
    case ar
    show ?thesis
    proof (cases "skip_ws cs")
      case Nil
      with Cons ar show ?thesis by (simp add: parse_value_cons)
    next
      case sk: (Cons d r0)
      then have "length r0 < length cs" by (rule skip_ws_cons_length)
      with n Cons have "2 * length (d # r0) + 2 \<le> n" by simp
      then have "parse_array n [] (d # r0) \<noteq> OutOfFuel" by (rule arr)
      with Cons ar sk show ?thesis by (simp add: parse_value_cons)
    qed
  next
    case other
    with Cons scan_number_fuel [of s] show ?thesis
      by (simp add: parse_value_cons)
  qed
qed

lemma parse_array_fuel_step:
  assumes val: "\<And>s. 2 * length s + 1 \<le> n \<Longrightarrow> parse_value n s \<noteq> OutOfFuel"
    and arr: "\<And>acc s. 2 * length s + 2 \<le> n \<Longrightarrow> parse_array n acc s \<noteq> OutOfFuel"
    and n: "2 * length s + 2 \<le> Suc n"
  shows "parse_array (Suc n) acc s \<noteq> OutOfFuel"
proof (cases "parse_value n s")
  case (Parsed x r0)
  then have l0: "length r0 < length s" by (rule parse_value_shorter)
  show ?thesis
  proof (cases "skip_ws r0")
    case Nil
    with Parsed show ?thesis by (simp add: parse_array.simps)
  next
    case (Cons d r')
    then have "length r' < length r0" by (rule skip_ws_cons_length)
    with l0 n skip_ws_length [of r'] have "2 * length (skip_ws r') + 2 \<le> n" by simp
    then have "parse_array n (x # acc) (skip_ws r') \<noteq> OutOfFuel" by (rule arr)
    with Parsed Cons show ?thesis by (simp add: parse_array.simps)
  qed
next
  case OutOfFuel
  moreover from n have "2 * length s + 1 \<le> n" by simp
  ultimately show ?thesis using val by blast
qed (simp_all add: parse_array.simps)

lemma parse_object_fuel_step:
  assumes val: "\<And>s. 2 * length s + 1 \<le> n \<Longrightarrow> parse_value n s \<noteq> OutOfFuel"
    and obj: "\<And>acc s. 2 * length s + 1 \<le> n \<Longrightarrow> parse_object n acc s \<noteq> OutOfFuel"
    and n: "2 * length s + 1 \<le> Suc n"
  shows "parse_object (Suc n) acc s \<noteq> OutOfFuel"
proof (cases "scanstring [] s")
  case (Parsed key r0)
  then have l0: "length r0 < length s" by (rule scanstring_shorter)
  show ?thesis
  proof (cases "skip_ws r0")
    case Nil
    with Parsed show ?thesis by (simp add: parse_object.simps)
  next
    case s0: (Cons c r1)
    then have l1: "length r1 < length r0" by (rule skip_ws_cons_length)
    show ?thesis
    proof (cases "c = CHR '':''")
      case False
      with Parsed s0 show ?thesis by (simp add: parse_object.simps)
    next
      case colon: True
      from l0 l1 n skip_ws_length [of r1] have "2 * length (skip_ws r1) + 1 \<le> n" by simp
      then have v: "parse_value n (skip_ws r1) \<noteq> OutOfFuel" by (rule val)
      show ?thesis
      proof (cases "parse_value n (skip_ws r1)")
        case pv: (Parsed x r2)
        then have l2: "length r2 < length (skip_ws r1)" by (rule parse_value_shorter)
        show ?thesis
        proof (cases "skip_ws r2")
          case Nil
          with Parsed s0 colon pv show ?thesis by (simp add: parse_object.simps)
        next
          case s2: (Cons d r3)
          then have l3: "length r3 < length r2" by (rule skip_ws_cons_length)
          show ?thesis
          proof (cases "skip_ws r3")
            case Nil
            with Parsed s0 colon pv s2 show ?thesis by (simp add: parse_object.simps)
          next
            case s3: (Cons q r4)
            then have "length r4 < length r3" by (rule skip_ws_cons_length)
            with l0 l1 l2 l3 n skip_ws_length [of r1] have "2 * length r4 + 1 \<le> n" by simp
            then have "parse_object n (AList.update key x acc) r4 \<noteq> OutOfFuel" by (rule obj)
            with Parsed s0 colon pv s2 s3 show ?thesis by (simp add: parse_object.simps)
          qed
        qed
      next
        case OutOfFuel
        with v show ?thesis by simp
      qed (use Parsed s0 colon in \<open>simp_all add: parse_object.simps\<close>)
    qed
  qed
next
  case OutOfFuel
  with scanstring_fuel [of "[]" s] show ?thesis by simp
qed (simp_all add: parse_object.simps)

lemma parse_fuel:
  "(\<forall>s. 2 * length s + 1 \<le> n \<longrightarrow> parse_value n s \<noteq> OutOfFuel)
   \<and> (\<forall>acc s. 2 * length s + 2 \<le> n \<longrightarrow> parse_array n acc s \<noteq> OutOfFuel)
   \<and> (\<forall>acc s. 2 * length s + 1 \<le> n \<longrightarrow> parse_object n acc s \<noteq> OutOfFuel)"
proof (induction n)
  case 0
  show ?case by simp
next
  case (Suc n)
  then have val: "\<And>s. 2 * length s + 1 \<le> n \<Longrightarrow> parse_value n s \<noteq> OutOfFuel"
    and arr: "\<And>acc s. 2 * length s + 2 \<le> n \<Longrightarrow> parse_array n acc s \<noteq> OutOfFuel"
    and obj: "\<And>acc s. 2 * length s + 1 \<le> n \<Longrightarrow> parse_object n acc s \<noteq> OutOfFuel"
    by blast+
  show ?case
  proof (intro conjI allI impI)
    fix s :: string
    assume "2 * length s + 1 \<le> Suc n"
    with arr obj show "parse_value (Suc n) s \<noteq> OutOfFuel"
      by (rule parse_value_fuel_step [where n = n])
  next
    fix acc and s :: string
    assume "2 * length s + 2 \<le> Suc n"
    with val arr show "parse_array (Suc n) acc s \<noteq> OutOfFuel"
      by (rule parse_array_fuel_step [where n = n])
  next
    fix acc and s :: string
    assume "2 * length s + 1 \<le> Suc n"
    with val obj show "parse_object (Suc n) acc s \<noteq> OutOfFuel"
      by (rule parse_object_fuel_step [where n = n])
  qed
qed

lemma json_loads_fuel: "parse_value (2 * length s + 2) (skip_ws s) \<noteq> OutOfFuel"
proof -
  have "2 * length (skip_ws s) + 1 \<le> 2 * length s + 2"
    using skip_ws_length [of s] by simp
  then show ?thesis using parse_fuel by blast
qed

lemma json_loads_unmodelled:
  "json_loads s = Inl Unmodelled
    \<longleftrightarrow> parse_value (2 * length s + 2) (skip_ws s) = Unsupported"
  using json_loads_fuel [of s]
  by (simp add: json_loads_def split: scan.splits)

subsection \<open>The credential file after authentication\<close>

lemma send_reply:
  "send req w = (Inr resp, w') \<Longrightarrow> \<exists>st tx. resp = \<lparr>status_code = st, resp_text = tx\<rparr>
      \<and> auth_file w' = auth_file w \<and> auth_file_writable w' = auth_file_writable w"
  by (auto simp: send_def log_event_def Let_def split: list.splits reply.splits)

lemma load_keys_files:
  "load_keys w = (r, w') \<Longrightarrow> auth_file w' = auth_file w \<and> auth_file_writable w' = auth_file_writable w"
  by (auto simp: load_keys_def read_file_def log_event_def Let_def
      split: file_state.splits sum.splits prod.splits if_splits)

lemma authenticate_success:
  assumes "authenticate sg w = (Inr token, w')"
  shows "\<exists>body auth. json_loads body = Inr auth \<and> py_getitem auth ''token'' = Inr token
      \<and> auth_file_writable w
      \<and> auth_file w' = (case auth_file w of Unreadable \<Rightarrow> Unreadable | _ \<Rightarrow> Content (json_dumps auth))"
proof -
  from assms obtain key pem w1 where lk: "load_keys w = (Inr (key, pem), w1)"
    by (auto simp: authenticate_def split: prod.splits sum.splits)
  from assms lk obtain resp w2 where s1: "send (challenge_request pem) w1 = (Inr resp, w2)"
    by (auto simp: authenticate_def split: prod.splits sum.splits)
  from assms lk s1 obtain challenge nonce_b64 nonce_bytes where
    c: "raise_for_status resp = Inr ()" "resp_json resp = Inr challenge"
      "py_getitem challenge ''nonce'' = Inr nonce_b64" "py_b64decode nonce_b64 = Inr nonce_bytes"
    by (auto simp: authenticate_def split: prod.splits sum.splits)
  let ?req = "authenticate_request pem (b64encode (sign sg key nonce_bytes))"
  from assms lk s1 c obtain resp2 w3 where s2: "send ?req w2 = (Inr resp2, w3)"
    by (auto simp: authenticate_def Let_def split: prod.splits sum.splits)
  from assms lk s1 c s2 obtain auth w4 where
    a: "raise_for_status resp2 = Inr ()" "resp_json resp2 = Inr auth"
      "write_auth_file (json_dumps auth) w3 = (Inr (), w4)"
      "py_getitem auth ''token'' = Inr token" "w' = w4"
    by (auto simp: authenticate_def Let_def split: prod.splits sum.splits)
  have f: "auth_file w3 = auth_file w" "auth_file_writable w3 = auth_file_writable w"
    using load_keys_files [OF lk] send_reply [OF s1] send_reply [OF s2] by auto
  from a(3) have "auth_file_writable w3"
    and "auth_file w4 = (case auth_file w3 of Unreadable \<Rightarrow> Unreadable | _ \<Rightarrow> Content (json_dumps auth))"
    by (auto simp: write_auth_file_def log_event_def Let_def split: if_splits)
  with f a show ?thesis
    by (auto simp: resp_json_def)
qed

text \<open>
  C9. The credential is saved by lines 53 and 54 of \<^verbatim>\<open>authenticate()\<close> and read back by
  lines 61 to 63 of \<^verbatim>\<open>get_token()\<close>. Let \<^verbatim>\<open>authenticate()\<close> return a token and leave the world
  \<open>w'\<close>, and let \<^verbatim>\<open>get_token()\<close> run in any later world \<open>w''\<close> that has the credential file as
  \<open>w'\<close> has it. Then the file holds the text \<^verbatim>\<open>json.dump(auth, f, indent=2)\<close> wrote for the
  credential \<open>auth\<close> whose token was returned; the read of \<^verbatim>\<open>get_token()\<close> returns that
  text; \<^verbatim>\<open>json.load\<close> of it is \<open>auth\<close> again, the same object with the same fields;
  \<^verbatim>\<open>auth.get("token", "")\<close> is the token that was returned; and \<^verbatim>\<open>get_token()\<close> goes on with
  that token: it returns it when the claims it reads from it have not expired, and
  authenticates otherwise. (The claims are a function of the token, so they are equal
  as the token is.) A file that the process may write and may not read is written all
  the same, and the read of \<^verbatim>\<open>get_token()\<close> raises \<^verbatim>\<open>PermissionError\<close>. A reply of the service
  with a \<^verbatim>\<open>float\<close> in it is outside the model.
\<close>

theorem credential_roundtrip:
  assumes "authenticate sg w = (Inr token, w')"
    and "auth_file w'' = auth_file w'"
  shows "if auth_file w = Unreadable
         then get_token sg' w'' = (Inl PermissionError, log_event (Opened AUTH_FILE ''r'') w'')
         else (\<exists>auth. auth_file w' = Content (json_dumps auth)
                 \<and> py_getitem auth ''token'' = Inr token
                 \<and> read_file AUTH_FILE ''r'' w''
                     = (Inr (json_dumps auth), log_event (Opened AUTH_FILE ''r'') w'')
                 \<and> json_loads (json_dumps auth) = Inr auth
                 \<and> py_get auth ''token'' (JString []) = Inr token
                 \<and> get_token sg' w'' =
                     (case token_unexpired token (clock w'') of
                        Inr True \<Rightarrow> (Inr token, log_event (Opened AUTH_FILE ''r'') w'')
                      | Inr False \<Rightarrow> authenticate sg' (log_event (Opened AUTH_FILE ''r'') w'')
                      | Inl e \<Rightarrow>
                          if e = Unmodelled then (Inl Unmodelled, log_event (Opened AUTH_FILE ''r'') w'')
                          else authenticate sg' (log_event (Opened AUTH_FILE ''r'') w'')))"
proof (cases "auth_file w = Unreadable")
  case True
  from authenticate_success [OF assms(1)] True have "auth_file w' = Unreadable"
    by auto
  with assms(2) have "auth_file w'' = Unreadable" by simp
  then have "get_token sg' w'' = (Inl PermissionError, log_event (Opened AUTH_FILE ''r'') w'')"
    by (simp add: get_token_def os_path_exists_def file_at_def read_file_def Let_def)
  with True show ?thesis by simp
next
  case False
  from authenticate_success [OF assms(1)] obtain body auth where
    a: "json_loads body = Inr auth" "py_getitem auth ''token'' = Inr token"
      "auth_file w' = (case auth_file w of Unreadable \<Rightarrow> Unreadable | _ \<Rightarrow> Content (json_dumps auth))"
    by blast
  from a(3) False have f: "auth_file w' = Content (json_dumps auth)"
    by (cases "auth_file w") simp_all
  with assms(2) have f2: "auth_file w'' = Content (json_dumps auth)" by simp
  have rt: "json_loads (json_dumps auth) = Inr auth"
    using a(1) by (rule json_loads_dumps)
  have g: "py_get auth ''token'' (JString []) = Inr token"
    using a(2) by (rule py_getitem_get)
  have rd: "read_file AUTH_FILE ''r'' w''
      = (Inr (json_dumps auth), log_event (Opened AUTH_FILE ''r'') w'')"
    using f2 by (simp add: read_file_def file_at_def Let_def)
  have gt: "get_token sg' w'' =
      (case token_unexpired token (clock w'') of
         Inr True \<Rightarrow> (Inr token, log_event (Opened AUTH_FILE ''r'') w'')
       | Inr False \<Rightarrow> authenticate sg' (log_event (Opened AUTH_FILE ''r'') w'')
       | Inl e \<Rightarrow>
           if e = Unmodelled then (Inl Unmodelled, log_event (Opened AUTH_FILE ''r'') w'')
           else authenticate sg' (log_event (Opened AUTH_FILE ''r'') w''))"
    using get_token_cached [OF f2 rt g, of sg'] by (simp add: Let_def)
  from False f a(2) rd rt g gt show ?thesis by auto
qed

text \<open>The theorem where there was no credential file and the service issues a token that
  expires in an hour, with two fields beside it: \<^verbatim>\<open>get_token()\<close>, run in the world
  \<^verbatim>\<open>authenticate()\<close> left, returns that token, and its only event is the read of the
  credential file. And where the credential file could be written and not read:
  \<^verbatim>\<open>get_token()\<close> raises.\<close>

theorem credential_roundtrip_witness:
  "fst (authenticate stand_in_signer (world_with Missing issuing_replies)) = Inr (JString fresh_token)
   \<and> auth_file (snd (authenticate stand_in_signer (world_with Missing issuing_replies)))
       = Content (json_dumps (JObject [(''agent_id'', JString ''a1''),
                    (''token'', JString fresh_token), (''unread'', JInt 3)]))
   \<and> get_token stand_in_signer (snd (authenticate stand_in_signer (world_with Missing issuing_replies)))
       = (Inr (JString fresh_token),
          log_event (Opened AUTH_FILE ''r'')
            (snd (authenticate stand_in_signer (world_with Missing issuing_replies))))
   \<and> get_token stand_in_signer
         (snd (authenticate stand_in_signer (world_with Unreadable issuing_replies)))
       = (Inl PermissionError,
          log_event (Opened AUTH_FILE ''r'')
            (snd (authenticate stand_in_signer (world_with Unreadable issuing_replies))))"
proof -
  let ?w = "world_with Missing issuing_replies"
  let ?w' = "snd (authenticate stand_in_signer ?w)"
  let ?u = "world_with Unreadable issuing_replies"
  let ?u' = "snd (authenticate stand_in_signer ?u)"
  have t: "fst (authenticate stand_in_signer ?w) = Inr (JString fresh_token)"
    by code_simp
  then have 1: "authenticate stand_in_signer ?w = (Inr (JString fresh_token), ?w')"
    by (metis prod.collapse)
  have 2: "auth_file ?w \<noteq> Unreadable"
    by (simp add: world_with_def)
  have 3: "auth_file ?w' = Content (json_dumps (JObject [(''agent_id'', JString ''a1''),
                    (''token'', JString fresh_token), (''unread'', JInt 3)]))"
    by code_simp
  have 4: "token_unexpired (JString fresh_token) (clock ?w') = Inr True"
    by code_simp
  have a: "get_token stand_in_signer ?w' = (Inr (JString fresh_token), log_event (Opened AUTH_FILE ''r'') ?w')"
    using credential_roundtrip [OF 1 refl, of stand_in_signer] 2 4 by auto
  have "fst (authenticate stand_in_signer ?u) = Inr (JString fresh_token)"
    by code_simp
  then have 5: "authenticate stand_in_signer ?u = (Inr (JString fresh_token), ?u')"
    by (metis prod.collapse)
  have 6: "auth_file ?u = Unreadable"
    by (simp add: world_with_def)
  have b: "get_token stand_in_signer ?u' = (Inl PermissionError, log_event (Opened AUTH_FILE ''r'') ?u')"
    using credential_roundtrip [OF 5 refl, of stand_in_signer] 6 by simp
  from t 3 a b show ?thesis by blast
qed

end
